theory Spec2Isabelle
  imports Main "HOL-Library.Word"
begin

section \<open>Data of the time sync controller\<close>

text \<open>
  The development follows \<^verbatim>\<open>SyncController.Run\<close> of
  \<^verbatim>\<open>internal/app/machined/pkg/controllers/time/sync.go\<close>.

  \<^verbatim>\<open>time.Duration\<close> is an \<^verbatim>\<open>int64\<close> count of nanoseconds, and Go's
  \<^verbatim>\<open>int\<close> has 64 bits on the platforms the controller is built for. Both are 64-bit
  words here: \<open>+\<close> and \<open>-\<close> wrap around as in Go, and \<open>sint\<close> reads the signed value
  that Go compares.
\<close>

type_synonym duration = "64 word"
type_synonym go_int = "64 word"

text \<open>The runtime mode of the controller (\<^verbatim>\<open>v1alpha1runtime.Mode\<close>).\<close>

datatype Mode = ModeCloud | ModeContainer | ModeMetal

text \<open>
  What the loop reads from the machine configuration:
  \<^verbatim>\<open>cfg.Config().Machine().Time().Disabled()\<close> and \<^verbatim>\<open>...BootTimeout()\<close>.
\<close>

record TimeConfig =
  Disabled :: bool
  BootTimeout :: duration

text \<open>
  The result of \<^verbatim>\<open>r.Get\<close>: the resource, an error for which
  \<^verbatim>\<open>state.IsNotFoundError\<close> holds, or any other error.
\<close>

datatype 'a get_result = Found 'a | NotFoundError | OtherError

text \<open>The published resource, \<^verbatim>\<open>time.StatusSpec\<close>.\<close>

record StatusSpec =
  Epoch :: go_int
  Synced :: bool
  SyncDisabled :: bool

text \<open>
  A syncer made by \<^verbatim>\<open>NewNTPSyncer\<close>: its identity, which also names its two channels
  \<^verbatim>\<open>Synced()\<close> and \<^verbatim>\<open>EpochChange()\<close>, and the time servers it currently has.
\<close>

record NTPSyncer =
  syncer_id :: nat
  syncer_servers :: "string list"

text \<open>
  A \<^verbatim>\<open>*time.Timer\<close> held by the loop: its identity, which also names its channel
  \<^verbatim>\<open>C\<close>, whether the loop armed it and has not stopped it since, and the duration it
  was last armed with. Whether an armed timer has already expired is decided by the clock
  and comes in as an input.
\<close>

record Timer =
  timer_id :: nat
  timer_armed :: bool
  timer_d :: duration

text \<open>The arms of the \<^verbatim>\<open>select\<close> at the head of the loop.\<close>

datatype event = CtxDone | RuntimeEvent | SyncedSignal | EpochChange | TimeoutFired

text \<open>
  What the environment supplies to one iteration: the arm of the \<^verbatim>\<open>select\<close> that
  fired, the results the two \<^verbatim>\<open>r.Get\<close> calls give when they are made,
  \<^verbatim>\<open>time.Since(ctrl.bootTime)\<close>, whether the held timer has expired by the time
  \<^verbatim>\<open>Reset\<close> is called on it, and whether \<^verbatim>\<open>r.Modify\<close> fails.
\<close>

record inputs =
  in_event :: event
  in_time_servers :: "string list get_result"
  in_config :: "TimeConfig get_result"
  in_since_boot :: duration
  in_timer_expired :: bool
  in_modify_fails :: bool

text \<open>The errors \<^verbatim>\<open>Run\<close> returns.\<close>

datatype error = ErrGettingTimeServerStatus | ErrGettingConfig | ErrUpdatingObjects

text \<open>The calls the loop makes on its collaborators, in the order it makes them.\<close>

datatype action =
    TimerStop nat
  | TimerReset nat duration bool
  | NewTimer nat duration
  | SyncCtxCancel nat
  | SyncWgWait
  | NewNTPSyncer nat "string list"
  | GoSyncerRun nat
  | SetTimeServers nat "string list"
  | StatusModify StatusSpec

text \<open>
  The local variables of \<^verbatim>\<open>Run\<close>, under the names of the source, together with what
  the loop's calls act on: \<open>syncWg\<close> lists the worker goroutines the wait group still
  counts, \<open>published\<close> is the status resource in the store, and \<open>next_id\<close> numbers the
  syncers and timers as they are made.
\<close>

record state =
  syncer :: "NTPSyncer option"
  syncCh :: "nat option"
  epochCh :: "nat option"
  timeSynced :: bool
  epoch :: go_int
  timeSyncTimeoutTimer :: "Timer option"
  timeSyncTimeoutCh :: "nat option"
  syncWg :: "nat list"
  published :: "StatusSpec option"
  next_id :: nat

text \<open>
  How an iteration, or a run of iterations, ends, with the variables it leaves and the
  calls it made: the loop goes on to its next \<^verbatim>\<open>select\<close>; or \<^verbatim>\<open>Run\<close> returns,
  nil or an error, after its deferred function; or a \<^verbatim>\<open>syncWg.Wait()\<close> never
  returns.
\<close>

datatype outcome =
    Continue state "action list"
  | Return "error option" state "action list"
  | Blocked

section \<open>The loop\<close>

text \<open>The variables as \<^verbatim>\<open>Run\<close> declares them, over a store holding \<open>st\<close>.\<close>

definition init_state :: "StatusSpec option \<Rightarrow> state" where
  "init_state st =
     \<lparr>syncer = None, syncCh = None, epochCh = None, timeSynced = False, epoch = 0,
      timeSyncTimeoutTimer = None, timeSyncTimeoutCh = None,
      syncWg = [], published = st, next_id = 0\<rparr>"

text \<open>
  The arms of the \<^verbatim>\<open>select\<close> other than \<^verbatim>\<open>ctx.Done()\<close>, which returns and is
  handled in \<open>cycle\<close>.
\<close>

fun select_case :: "state \<Rightarrow> event \<Rightarrow> state" where
  "select_case s CtxDone = s"
| "select_case s RuntimeEvent = s"
| "select_case s SyncedSignal = s\<lparr>syncCh := None, timeSynced := True\<rparr>"
| "select_case s EpochChange = s\<lparr>epoch := epoch s + 1\<rparr>"
| "select_case s TimeoutFired = s\<lparr>timeSynced := True, timeSyncTimeoutTimer := None\<rparr>"

text \<open>
  A receive from a nil channel never succeeds, so an arm of the \<^verbatim>\<open>select\<close> can fire
  only while its channel variable is set.
\<close>

fun enabled :: "state \<Rightarrow> event \<Rightarrow> bool" where
  "enabled s CtxDone = True"
| "enabled s RuntimeEvent = True"
| "enabled s SyncedSignal = (syncCh s \<noteq> None)"
| "enabled s EpochChange = (epochCh s \<noteq> None)"
| "enabled s TimeoutFired = (timeSyncTimeoutCh s \<noteq> None)"

text \<open>
  \<^verbatim>\<open>syncCtxCancel(); syncWg.Wait()\<close>: the worker of syncer \<open>w\<close> ends on the
  cancellation, and \<^verbatim>\<open>Wait\<close> returns once no goroutine is counted any more. With a
  goroutine of another syncer still counted it would not return.
\<close>

definition stop_syncer :: "state \<Rightarrow> NTPSyncer \<Rightarrow> (state \<times> action list) option" where
  "stop_syncer s w =
     (if set (syncWg s) \<subseteq> {syncer_id w}
      then Some (s\<lparr>syncWg := []\<rparr>, [SyncCtxCancel (syncer_id w), SyncWgWait])
      else None)"

text \<open>The deferred function of \<^verbatim>\<open>Run\<close>, which runs at every return.\<close>

definition deferred :: "state \<Rightarrow> (state \<times> action list) option" where
  "deferred s =
     (case (case syncer s of None \<Rightarrow> Some (s, []) | Some w \<Rightarrow> stop_syncer s w) of
        None \<Rightarrow> None
      | Some (s1, a1) \<Rightarrow>
          (case timeSyncTimeoutTimer s1 of
             None \<Rightarrow> Some (s1, a1)
           | Some t \<Rightarrow>
               Some (s1\<lparr>timeSyncTimeoutTimer := Some (t\<lparr>timer_armed := False\<rparr>)\<rparr>,
                     a1 @ [TimerStop (timer_id t)])))"

definition return_with :: "error option \<Rightarrow> state \<Rightarrow> action list \<Rightarrow> outcome" where
  "return_with e s a =
     (case deferred s of None \<Rightarrow> Blocked | Some (s', a') \<Rightarrow> Return e s' (a @ a'))"

text \<open>Lines 155 to 163: the mode first, then the configuration.\<close>

definition sync_disabled :: "Mode \<Rightarrow> TimeConfig option \<Rightarrow> bool" where
  "sync_disabled m cfg =
     (let d0 = False;
          d1 = (if m = ModeContainer then True else d0);
          d2 = (if cfg \<noteq> None \<and> Disabled (the cfg) then True else d1)
      in d2)"

text \<open>Lines 153 and 165 to 167: the zero duration unless a configuration is there.\<close>

definition sync_timeout :: "TimeConfig option \<Rightarrow> duration" where
  "sync_timeout cfg = (if cfg \<noteq> None then BootTimeout (the cfg) else 0)"

text \<open>\<^verbatim>\<open>time.NewTimer(d)\<close>, assigned to the timer variable and its channel.\<close>

definition new_timer :: "state \<Rightarrow> duration \<Rightarrow> state" where
  "new_timer s d =
     s\<lparr>timeSyncTimeoutTimer := Some \<lparr>timer_id = next_id s, timer_armed = True, timer_d = d\<rparr>,
       timeSyncTimeoutCh := Some (next_id s),
       next_id := Suc (next_id s)\<rparr>"

text \<open>
  Lines 169 to 190. \<^verbatim>\<open>Reset\<close> reports whether the timer was still active: armed, not
  stopped and not expired. It arms the timer it is called on in either case; when it
  reports false the loop makes a new timer and drops the old one.
\<close>

definition update_timeout ::
    "state \<Rightarrow> duration \<Rightarrow> duration \<Rightarrow> bool \<Rightarrow> state \<times> action list" where
  "update_timeout s syncTimeout sinceBoot expired =
     (if timeSynced s then (s, [])
      else if syncTimeout = 0 then
        (case timeSyncTimeoutTimer s of
           None \<Rightarrow> (s\<lparr>timeSyncTimeoutCh := None\<rparr>, [])
         | Some t \<Rightarrow>
             (s\<lparr>timeSyncTimeoutTimer := Some (t\<lparr>timer_armed := False\<rparr>),
                timeSyncTimeoutCh := None\<rparr>,
              [TimerStop (timer_id t)]))
      else if sint syncTimeout < sint sinceBoot then (s\<lparr>timeSynced := True\<rparr>, [])
      else
        (let d = syncTimeout - sinceBoot in
         case timeSyncTimeoutTimer s of
           None \<Rightarrow> (new_timer s d, [NewTimer (next_id s) d])
         | Some t \<Rightarrow>
             if timer_armed t \<and> \<not> expired
             then (s\<lparr>timeSyncTimeoutTimer := Some (t\<lparr>timer_d := d\<rparr>)\<rparr>,
                   [TimerReset (timer_id t) d True])
             else (new_timer s d,
                   [TimerReset (timer_id t) d False, NewTimer (next_id s) d])))"

text \<open>Lines 203 to 218: a new syncer, its channels, the flag reset, the goroutine.\<close>

definition start_syncer :: "state \<Rightarrow> string list \<Rightarrow> state \<times> action list" where
  "start_syncer s timeServers =
     (s\<lparr>syncer := Some \<lparr>syncer_id = next_id s, syncer_servers = timeServers\<rparr>,
        syncCh := Some (next_id s),
        epochCh := Some (next_id s),
        timeSynced := False,
        syncWg := next_id s # syncWg s,
        next_id := Suc (next_id s)\<rparr>,
      [NewNTPSyncer (next_id s) timeServers, GoSyncerRun (next_id s)])"

text \<open>Lines 192 to 219: the \<^verbatim>\<open>switch\<close> over the decision and the syncer variable.\<close>

definition reconcile_syncer ::
    "state \<Rightarrow> bool \<Rightarrow> string list \<Rightarrow> (state \<times> action list) option" where
  "reconcile_syncer s syncDisabled timeServers =
     (if syncDisabled \<and> syncer s \<noteq> None then
        (case stop_syncer s (the (syncer s)) of
           None \<Rightarrow> None
         | Some (s', a) \<Rightarrow> Some (s'\<lparr>syncer := None, syncCh := None, epochCh := None\<rparr>, a))
      else if \<not> syncDisabled \<and> syncer s = None then Some (start_syncer s timeServers)
      else Some (s, []))"

text \<open>Lines 221 to 223.\<close>

definition set_time_servers :: "state \<Rightarrow> string list \<Rightarrow> state \<times> action list" where
  "set_time_servers s timeServers =
     (case syncer s of
        None \<Rightarrow> (s, [])
      | Some w \<Rightarrow>
          (s\<lparr>syncer := Some (w\<lparr>syncer_servers := timeServers\<rparr>)\<rparr>,
           [SetTimeServers (syncer_id w) timeServers]))"

text \<open>
  Lines 229 to 237. The function handed to \<^verbatim>\<open>r.Modify\<close> assigns a whole
  \<^verbatim>\<open>StatusSpec\<close> to the resource it is given; \<^verbatim>\<open>r.Modify\<close> gives it the resource
  of the store, or the one of \<^verbatim>\<open>time.NewStatus()\<close> when the store has none, and
  stores what it leaves.
\<close>

definition status_update :: "go_int \<Rightarrow> bool \<Rightarrow> bool \<Rightarrow> StatusSpec \<Rightarrow> StatusSpec" where
  "status_update e t d r = \<lparr>Epoch = e, Synced = t, SyncDisabled = d\<rparr>"

definition NewStatus :: StatusSpec where
  "NewStatus = \<lparr>Epoch = 0, Synced = False, SyncDisabled = False\<rparr>"

definition runtime_modify ::
    "StatusSpec option \<Rightarrow> (StatusSpec \<Rightarrow> StatusSpec) \<Rightarrow> StatusSpec" where
  "runtime_modify old f = f (case old of None \<Rightarrow> NewStatus | Some r \<Rightarrow> r)"

text \<open>
  Lines 153 to 239: an iteration from the point where both reads have succeeded. A
  \<^verbatim>\<open>r.Modify\<close> that fails leaves the store as it was.
\<close>

definition reconcile ::
    "Mode \<Rightarrow> state \<Rightarrow> string list \<Rightarrow> TimeConfig option \<Rightarrow> duration \<Rightarrow> bool \<Rightarrow> bool
      \<Rightarrow> outcome" where
  "reconcile m s timeServers cfg sinceBoot expired modify_fails =
     (let syncDisabled = sync_disabled m cfg;
          syncTimeout = sync_timeout cfg;
          (s2, a2) = update_timeout s syncTimeout sinceBoot expired
      in case reconcile_syncer s2 syncDisabled timeServers of
           None \<Rightarrow> Blocked
         | Some (s3, a3) \<Rightarrow>
             (let (s4, a4) = set_time_servers s3 timeServers;
                  s5 = (if syncDisabled then s4\<lparr>timeSynced := True\<rparr> else s4);
                  f = status_update (epoch s5) (timeSynced s5) syncDisabled
              in if modify_fails
                 then return_with (Some ErrUpdatingObjects) s5 (a2 @ a3 @ a4)
                 else Continue (s5\<lparr>published := Some (runtime_modify (published s5) f)\<rparr>)
                        (a2 @ a3 @ a4 @ [StatusModify (runtime_modify (published s5) f)])))"

text \<open>
  The configuration the loop goes on with after its second \<^verbatim>\<open>r.Get\<close>: nil when
  the read reported not-found.
\<close>

definition cfg_of :: "TimeConfig get_result \<Rightarrow> TimeConfig option" where
  "cfg_of r = (case r of Found c \<Rightarrow> Some c | NotFoundError \<Rightarrow> None | OtherError \<Rightarrow> None)"

text \<open>One iteration of the \<^verbatim>\<open>for\<close> loop, lines 119 to 240.\<close>

definition cycle :: "Mode \<Rightarrow> state \<Rightarrow> inputs \<Rightarrow> outcome" where
  "cycle m s i =
     (if in_event i = CtxDone then return_with None s []
      else
        (let s1 = select_case s (in_event i) in
         case in_time_servers i of
           OtherError \<Rightarrow> return_with (Some ErrGettingTimeServerStatus) s1 []
         | NotFoundError \<Rightarrow> Continue s1 []
         | Found timeServers \<Rightarrow>
             if in_config i = OtherError
             then return_with (Some ErrGettingConfig) s1 []
             else reconcile m s1 timeServers (cfg_of (in_config i))
                    (in_since_boot i) (in_timer_expired i) (in_modify_fails i)))"

text \<open>
  The loop over the iterations the environment drives. When the inputs are used up the
  loop is blocked in its \<^verbatim>\<open>select\<close>, which is \<open>Continue\<close> with the variables as they
  stand and the calls made so far.
\<close>

definition after :: "action list \<Rightarrow> outcome \<Rightarrow> outcome" where
  "after a r =
     (case r of
        Continue s b \<Rightarrow> Continue s (a @ b)
      | Return e s b \<Rightarrow> Return e s (a @ b)
      | Blocked \<Rightarrow> Blocked)"

fun run_loop :: "Mode \<Rightarrow> state \<Rightarrow> inputs list \<Rightarrow> outcome" where
  "run_loop m s [] = Continue s []"
| "run_loop m s (i # is) =
     (case cycle m s i of
        Continue s' a \<Rightarrow> after a (run_loop m s' is)
      | Return e s' a \<Rightarrow> Return e s' a
      | Blocked \<Rightarrow> Blocked)"

definition Run :: "Mode \<Rightarrow> StatusSpec option \<Rightarrow> inputs list \<Rightarrow> outcome" where
  "Run m st is = run_loop m (init_state st) is"

section \<open>Runs and their calls\<close>

text \<open>The number of epoch-change signals among the inputs of a run.\<close>

definition epoch_signals :: "inputs list \<Rightarrow> nat" where
  "epoch_signals is = length (filter (\<lambda>i. in_event i = EpochChange) is)"

text \<open>
  An iteration is skipped when an arm other than \<^verbatim>\<open>ctx.Done()\<close> fired and the read of
  the time server list reports not-found.
\<close>

definition skipped :: "inputs \<Rightarrow> bool" where
  "skipped i = (in_event i \<noteq> CtxDone \<and> in_time_servers i = NotFoundError)"

text \<open>
  The error, if any, that the store reports in an iteration: on the read of the time
  server list, on the read of the configuration (made only when the first read found the
  list), or on the status write (made only when both reads went through).
\<close>

definition fatal :: "inputs \<Rightarrow> error option" where
  "fatal i =
     (case in_time_servers i of
        OtherError \<Rightarrow> Some ErrGettingTimeServerStatus
      | NotFoundError \<Rightarrow> None
      | Found ts \<Rightarrow>
          if in_config i = OtherError then Some ErrGettingConfig
          else if in_modify_fails i then Some ErrUpdatingObjects
          else None)"

text \<open>The kinds of calls in a list of calls.\<close>

fun is_status_write :: "action \<Rightarrow> bool" where
  "is_status_write (StatusModify sp) = True"
| "is_status_write a = False"

fun is_syncer_start :: "action \<Rightarrow> bool" where
  "is_syncer_start (NewNTPSyncer n ts) = True"
| "is_syncer_start (GoSyncerRun n) = True"
| "is_syncer_start a = False"

fun is_syncer_stop :: "action \<Rightarrow> bool" where
  "is_syncer_stop (SyncCtxCancel n) = True"
| "is_syncer_stop SyncWgWait = True"
| "is_syncer_stop a = False"

fun is_timer_call :: "action \<Rightarrow> bool" where
  "is_timer_call (TimerStop n) = True"
| "is_timer_call (TimerReset n d b) = True"
| "is_timer_call (NewTimer n d) = True"
| "is_timer_call a = False"

text \<open>
  What the deferred function does from a state in which the wait group counts the syncer
  held: the calls it makes and the state it leaves. That \<open>deferred\<close> gives exactly these
  is \<open>deferred_loop_inv\<close> below.
\<close>

definition teardown_calls :: "state \<Rightarrow> action list" where
  "teardown_calls s =
     (case syncer s of None \<Rightarrow> [] | Some w \<Rightarrow> [SyncCtxCancel (syncer_id w), SyncWgWait]) @
     (case timeSyncTimeoutTimer s of None \<Rightarrow> [] | Some t \<Rightarrow> [TimerStop (timer_id t)])"

definition torn_down :: "state \<Rightarrow> state" where
  "torn_down s =
     s\<lparr>syncWg := [],
       timeSyncTimeoutTimer :=
         map_option (\<lambda>t. t\<lparr>timer_armed := False\<rparr>) (timeSyncTimeoutTimer s)\<rparr>"

section \<open>What holds between iterations\<close>

text \<open>
  At the \<^verbatim>\<open>select\<close> the wait group counts exactly the goroutine of the syncer held, the
  epoch channel is that syncer's, the synced channel is nil or that syncer's, and a timer
  that is armed is the one whose channel the loop listens on.
\<close>

definition loop_inv :: "state \<Rightarrow> bool" where
  "loop_inv s =
     (syncWg s = (case syncer s of None \<Rightarrow> [] | Some w \<Rightarrow> [syncer_id w]) \<and>
      epochCh s = map_option syncer_id (syncer s) \<and>
      (syncCh s = None \<or> syncCh s = map_option syncer_id (syncer s)) \<and>
      (case timeSyncTimeoutTimer s of
         None \<Rightarrow> True
       | Some t \<Rightarrow> timer_armed t \<longrightarrow> timeSyncTimeoutCh s = Some (timer_id t)))"

text \<open>
  At the \<^verbatim>\<open>select\<close>, a loop that holds no syncer and listens to a timer channel has the
  synced flag set: it came there through an iteration with sync disabled.
\<close>

definition timer_needs_syncer :: "state \<Rightarrow> bool" where
  "timer_needs_syncer s =
     (syncer s = None \<and> timeSyncTimeoutCh s \<noteq> None \<longrightarrow> timeSynced s)"

section \<open>Example inputs and states\<close>

text \<open>
  A concrete input: a change of a watched resource, one time server, a configuration with
  time sync enabled and a boot timeout of 10, read 1 after boot. The others differ from it
  in what their names say.
\<close>

definition example_input :: inputs where
  "example_input =
     \<lparr>in_event = RuntimeEvent, in_time_servers = Found [''pool.ntp.org''],
      in_config = Found \<lparr>Disabled = False, BootTimeout = 10\<rparr>, in_since_boot = 1,
      in_timer_expired = False, in_modify_fails = False\<rparr>"

definition not_found_input :: inputs where
  "not_found_input = example_input\<lparr>in_time_servers := NotFoundError\<rparr>"

definition disabled_input :: inputs where
  "disabled_input = example_input\<lparr>in_config := Found \<lparr>Disabled = True, BootTimeout = 10\<rparr>\<rparr>"


definition servers_error_input :: inputs where
  "servers_error_input = example_input\<lparr>in_time_servers := OtherError\<rparr>"

definition config_error_input :: inputs where
  "config_error_input = example_input\<lparr>in_config := OtherError\<rparr>"

definition modify_error_input :: inputs where
  "modify_error_input = example_input\<lparr>in_modify_fails := True\<rparr>"

definition synced_input :: inputs where
  "synced_input = example_input\<lparr>in_event := SyncedSignal\<rparr>"

definition epoch_input :: inputs where
  "epoch_input = example_input\<lparr>in_event := EpochChange\<rparr>"

text \<open>
  After a change of the configuration: the boot timeout is now 1 and the read comes 2 after
  boot, so the deadline has passed.
\<close>

definition late_input :: inputs where
  "late_input =
     example_input\<lparr>in_config := Found \<lparr>Disabled = False, BootTimeout = 1\<rparr>,
       in_since_boot := 2\<rparr>"

text \<open>The example input read 12 after boot, when the boot timeout of 10 has passed.\<close>

definition reenabled_input :: inputs where
  "reenabled_input = example_input\<lparr>in_since_boot := 12\<rparr>"

text \<open>
  Inputs of skipped iterations that consume a timer firing (10 after boot, when a timer
  armed for 9 at 1 after boot fires), a synced signal and an epoch-change signal.
\<close>

definition fired_skip_input :: inputs where
  "fired_skip_input = not_found_input\<lparr>in_event := TimeoutFired, in_since_boot := 10\<rparr>"

definition synced_skip_input :: inputs where
  "synced_skip_input = not_found_input\<lparr>in_event := SyncedSignal\<rparr>"

definition epoch_skip_input :: inputs where
  "epoch_skip_input = not_found_input\<lparr>in_event := EpochChange\<rparr>"

text \<open>
  The state and the calls of the first iteration on \<open>example_input\<close>: a timer armed for
  the 9 left of the boot timeout, a syncer started.
\<close>

definition started_state :: state where
  "started_state =
     \<lparr>syncer = Some \<lparr>syncer_id = 1, syncer_servers = [''pool.ntp.org'']\<rparr>,
      syncCh = Some 1, epochCh = Some 1, timeSynced = False, epoch = 0,
      timeSyncTimeoutTimer = Some \<lparr>timer_id = 0, timer_armed = True, timer_d = 9\<rparr>,
      timeSyncTimeoutCh = Some 0, syncWg = [1],
      published = Some \<lparr>Epoch = 0, Synced = False, SyncDisabled = False\<rparr>,
      next_id = 2\<rparr>"

definition started_calls :: "action list" where
  "started_calls =
     [NewTimer 0 9, NewNTPSyncer 1 [''pool.ntp.org''], GoSyncerRun 1,
      SetTimeServers 1 [''pool.ntp.org''],
      StatusModify \<lparr>Epoch = 0, Synced = False, SyncDisabled = False\<rparr>]"

text \<open>The state the first iteration leaves on \<open>disabled_input\<close>.\<close>

definition disabled_state :: state where
  "disabled_state =
     \<lparr>syncer = None, syncCh = None, epochCh = None, timeSynced = True, epoch = 0,
      timeSyncTimeoutTimer = Some \<lparr>timer_id = 0, timer_armed = True, timer_d = 9\<rparr>,
      timeSyncTimeoutCh = Some 0, syncWg = [],
      published = Some \<lparr>Epoch = 0, Synced = True, SyncDisabled = True\<rparr>,
      next_id = 1\<rparr>"

text \<open>From \<open>started_state\<close>: after a synced signal.\<close>

definition synced_state :: state where
  "synced_state =
     started_state\<lparr>syncCh := None, timeSynced := True,
       published := Some \<lparr>Epoch = 0, Synced = True, SyncDisabled = False\<rparr>\<rparr>"

definition synced_calls :: "action list" where
  "synced_calls =
     [SetTimeServers 1 [''pool.ntp.org''],
      StatusModify \<lparr>Epoch = 0, Synced = True, SyncDisabled = False\<rparr>]"

text \<open>From \<open>started_state\<close>: after an iteration on \<open>disabled_input\<close>.\<close>

definition stopped_state :: state where
  "stopped_state =
     started_state\<lparr>syncer := None, syncCh := None, epochCh := None, timeSynced := True,
       syncWg := [], published := Some \<lparr>Epoch = 0, Synced = True, SyncDisabled = True\<rparr>\<rparr>"

definition stopped_calls :: "action list" where
  "stopped_calls =
     [TimerReset 0 9 True, SyncCtxCancel 1, SyncWgWait,
      StatusModify \<lparr>Epoch = 0, Synced = True, SyncDisabled = True\<rparr>]"

text \<open>From \<open>started_state\<close>: after an iteration on \<open>late_input\<close>.\<close>

definition late_state :: state where
  "late_state =
     started_state\<lparr>timeSynced := True,
       published := Some \<lparr>Epoch = 0, Synced = True, SyncDisabled = False\<rparr>\<rparr>"

definition late_calls :: "action list" where
  "late_calls =
     [SetTimeServers 1 [''pool.ntp.org''],
      StatusModify \<lparr>Epoch = 0, Synced = True, SyncDisabled = False\<rparr>]"

text \<open>
  A run from \<open>started_state\<close> with two epoch signals, between which the syncer is
  stopped and a new one started, and the state it reaches.
\<close>

definition epoch_run :: "inputs list" where
  "epoch_run = [epoch_input, disabled_input, example_input, epoch_input]"

definition epoch_run_state :: state where
  "epoch_run_state =
     \<lparr>syncer = Some \<lparr>syncer_id = 2, syncer_servers = [''pool.ntp.org'']\<rparr>,
      syncCh = Some 2, epochCh = Some 2, timeSynced = False, epoch = 2,
      timeSyncTimeoutTimer = Some \<lparr>timer_id = 0, timer_armed = True, timer_d = 9\<rparr>,
      timeSyncTimeoutCh = Some 0, syncWg = [2],
      published = Some \<lparr>Epoch = 2, Synced = False, SyncDisabled = False\<rparr>,
      next_id = 3\<rparr>"

definition epoch_run_calls :: "action list" where
  "epoch_run_calls =
     [TimerReset 0 9 True, SetTimeServers 1 [''pool.ntp.org''],
      StatusModify \<lparr>Epoch = 1, Synced = False, SyncDisabled = False\<rparr>,
      TimerReset 0 9 True, SyncCtxCancel 1, SyncWgWait,
      StatusModify \<lparr>Epoch = 1, Synced = True, SyncDisabled = True\<rparr>,
      NewNTPSyncer 2 [''pool.ntp.org''], GoSyncerRun 2,
      SetTimeServers 2 [''pool.ntp.org''],
      StatusModify \<lparr>Epoch = 1, Synced = False, SyncDisabled = False\<rparr>,
      TimerReset 0 9 True, SetTimeServers 2 [''pool.ntp.org''],
      StatusModify \<lparr>Epoch = 2, Synced = False, SyncDisabled = False\<rparr>]"

text \<open>
  From \<open>disabled_state\<close>: after the timer has fired in a skipped iteration, and after the
  iteration on \<open>reenabled_input\<close> that follows.
\<close>

definition fired_state :: state where
  "fired_state = disabled_state\<lparr>timeSyncTimeoutTimer := None\<rparr>"

definition restarted_state :: state where
  "restarted_state =
     \<lparr>syncer = Some \<lparr>syncer_id = 1, syncer_servers = [''pool.ntp.org'']\<rparr>,
      syncCh = Some 1, epochCh = Some 1, timeSynced = False, epoch = 0,
      timeSyncTimeoutTimer = None, timeSyncTimeoutCh = Some 0, syncWg = [1],
      published = Some \<lparr>Epoch = 0, Synced = False, SyncDisabled = False\<rparr>,
      next_id = 2\<rparr>"

definition restarted_calls :: "action list" where
  "restarted_calls =
     [NewNTPSyncer 1 [''pool.ntp.org''], GoSyncerRun 1,
      SetTimeServers 1 [''pool.ntp.org''],
      StatusModify \<lparr>Epoch = 0, Synced = False, SyncDisabled = False\<rparr>]"

text \<open>
  From \<open>started_state\<close>: after a skipped synced signal, a skipped epoch-change signal and
  an iteration on \<open>example_input\<close>.
\<close>

definition caught_up_state :: state where
  "caught_up_state =
     started_state\<lparr>syncCh := None, timeSynced := True, epoch := 1,
       published := Some \<lparr>Epoch = 1, Synced = True, SyncDisabled = False\<rparr>\<rparr>"

definition caught_up_calls :: "action list" where
  "caught_up_calls =
     [SetTimeServers 1 [''pool.ntp.org''],
      StatusModify \<lparr>Epoch = 1, Synced = True, SyncDisabled = False\<rparr>]"

section \<open>The invariant is kept\<close>

lemma loop_inv_init: "loop_inv (init_state st)"
  by (simp add: loop_inv_def init_state_def)

lemma loop_inv_select: "loop_inv s \<Longrightarrow> loop_inv (select_case s e)"
  by (cases e) (auto simp: loop_inv_def split: option.splits)

lemma loop_inv_timer_off:
  "loop_inv s \<Longrightarrow> timeSyncTimeoutTimer s = None \<Longrightarrow> loop_inv (s\<lparr>timeSyncTimeoutCh := c\<rparr>)"
  by (simp add: loop_inv_def)

lemma loop_inv_timer_stop:
  "loop_inv s \<Longrightarrow>
   loop_inv (s\<lparr>timeSyncTimeoutTimer := Some (t\<lparr>timer_armed := False\<rparr>), timeSyncTimeoutCh := c\<rparr>)"
  by (simp add: loop_inv_def)

lemma loop_inv_timer_reset:
  "loop_inv s \<Longrightarrow> timeSyncTimeoutTimer s = Some t \<Longrightarrow>
   loop_inv (s\<lparr>timeSyncTimeoutTimer := Some (t\<lparr>timer_d := d\<rparr>)\<rparr>)"
  by (simp add: loop_inv_def)

lemma loop_inv_new_timer: "loop_inv s \<Longrightarrow> loop_inv (new_timer s d)"
  by (simp add: loop_inv_def new_timer_def)

lemma loop_inv_timeSynced: "loop_inv s \<Longrightarrow> loop_inv (s\<lparr>timeSynced := b\<rparr>)"
  by (simp add: loop_inv_def split: option.splits)

lemma loop_inv_update_timeout:
  assumes "loop_inv s" and "update_timeout s T e x = (s', a)"
  shows "loop_inv s'"
proof (cases "timeSyncTimeoutTimer s")
  case None
  with assms show ?thesis
    by (auto simp: update_timeout_def Let_def loop_inv_timer_off loop_inv_new_timer
          loop_inv_timeSynced split: if_splits)
next
  case (Some t)
  with assms show ?thesis
    by (auto simp: update_timeout_def Let_def loop_inv_timer_stop loop_inv_timer_reset
          loop_inv_new_timer loop_inv_timeSynced split: if_splits)
qed

lemma reconcile_syncer_inv:
  "loop_inv s \<Longrightarrow> \<exists>s' a. reconcile_syncer s d ts = Some (s', a) \<and> loop_inv s'"
  by (auto simp: loop_inv_def reconcile_syncer_def stop_syncer_def start_syncer_def
           split: option.splits)

lemma loop_inv_set_time_servers:
  "loop_inv s \<Longrightarrow> set_time_servers s ts = (s', a) \<Longrightarrow> loop_inv s'"
  by (auto simp: loop_inv_def set_time_servers_def split: option.splits)

lemma loop_inv_published: "loop_inv s \<Longrightarrow> loop_inv (s\<lparr>published := p\<rparr>)"
  by (simp add: loop_inv_def split: option.splits)

lemma deferred_inv: "loop_inv s \<Longrightarrow> \<exists>s' a. deferred s = Some (s', a)"
  by (auto simp: loop_inv_def deferred_def stop_syncer_def split: option.splits)

lemma return_with_inv: "loop_inv s \<Longrightarrow> \<exists>s' b. return_with e s a = Return e s' b"
  using deferred_inv [of s] by (auto simp: return_with_def)



text \<open>The state in which an iteration that has read both inputs reaches the status write.\<close>

lemma reconcile_cases:
  assumes "loop_inv s"
  obtains s5 a where "loop_inv s5"
    and "reconcile m s ts cfg e x True = return_with (Some ErrUpdatingObjects) s5 a"
    and "reconcile m s ts cfg e x False =
       Continue (s5\<lparr>published := Some \<lparr>Epoch = epoch s5, Synced = timeSynced s5, SyncDisabled = sync_disabled m cfg\<rparr>\<rparr>)
         (a @ [StatusModify \<lparr>Epoch = epoch s5, Synced = timeSynced s5, SyncDisabled = sync_disabled m cfg\<rparr>])"
proof -
  obtain s2 a2 where u: "update_timeout s (sync_timeout cfg) e x = (s2, a2)"
    by (cases "update_timeout s (sync_timeout cfg) e x")
  have i2: "loop_inv s2" using assms u by (rule loop_inv_update_timeout)
  obtain s3 a3 where r: "reconcile_syncer s2 (sync_disabled m cfg) ts = Some (s3, a3)" and i3: "loop_inv s3"
    using reconcile_syncer_inv [OF i2] by blast
  obtain s4 a4 where t: "set_time_servers s3 ts = (s4, a4)"
    by (cases "set_time_servers s3 ts")
  have i4: "loop_inv s4" using i3 t by (rule loop_inv_set_time_servers)
  define s5 where "s5 = (if sync_disabled m cfg then s4\<lparr>timeSynced := True\<rparr> else s4)"
  have i5: "loop_inv s5" using i4 by (simp add: s5_def loop_inv_timeSynced)
  have f: "reconcile m s ts cfg e x True = return_with (Some ErrUpdatingObjects) s5 (a2 @ a3 @ a4)"
    using u r t by (simp add: reconcile_def Let_def s5_def)
  have c: "reconcile m s ts cfg e x False =
       Continue (s5\<lparr>published := Some \<lparr>Epoch = epoch s5, Synced = timeSynced s5, SyncDisabled = sync_disabled m cfg\<rparr>\<rparr>)
         ((a2 @ a3 @ a4) @ [StatusModify \<lparr>Epoch = epoch s5, Synced = timeSynced s5, SyncDisabled = sync_disabled m cfg\<rparr>])"
    using u r t by (simp add: reconcile_def Let_def runtime_modify_def status_update_def s5_def)
  from i5 f c show thesis by (rule that)
qed

lemma reconcile_not_Blocked:
  assumes "loop_inv s"
  shows "reconcile m s ts cfg e x f \<noteq> Blocked"
proof -
  obtain s5 a where i: "loop_inv s5"
    and t: "reconcile m s ts cfg e x True = return_with (Some ErrUpdatingObjects) s5 a"
    and c: "\<exists>s' b. reconcile m s ts cfg e x False = Continue s' b"
    using reconcile_cases [OF assms, of m ts cfg e x] by metis
  show ?thesis
  proof (cases f)
    case True
    with t return_with_inv [OF i, of "Some ErrUpdatingObjects" a] show ?thesis by auto
  next
    case False
    with c show ?thesis by auto
  qed
qed

lemma reconcile_Continue_inv:
  assumes "loop_inv s" and "reconcile m s ts cfg e x f = Continue s' a"
  shows "loop_inv s'"
proof -
  obtain s5 b where i: "loop_inv s5"
    and t: "reconcile m s ts cfg e x True = return_with (Some ErrUpdatingObjects) s5 b"
    and c: "\<exists>p q. reconcile m s ts cfg e x False = Continue (s5\<lparr>published := p\<rparr>) q"
    using reconcile_cases [OF assms(1), of m ts cfg e x] by metis
  show ?thesis
  proof (cases f)
    case True
    with t assms(2) return_with_inv [OF i, of "Some ErrUpdatingObjects" b] show ?thesis by auto
  next
    case False
    with c assms(2) obtain p where "s' = s5\<lparr>published := p\<rparr>" by auto
    with i show ?thesis by (simp add: loop_inv_published)
  qed
qed


lemma cycle_CtxDone: "in_event i = CtxDone \<Longrightarrow> cycle m s i = return_with None s []"
  by (simp add: cycle_def)

lemma cycle_NotFound:
  "in_event i \<noteq> CtxDone \<Longrightarrow> in_time_servers i = NotFoundError \<Longrightarrow>
   cycle m s i = Continue (select_case s (in_event i)) []"
  by (simp add: cycle_def)

lemma cycle_servers_error:
  "in_event i \<noteq> CtxDone \<Longrightarrow> in_time_servers i = OtherError \<Longrightarrow>
   cycle m s i = return_with (Some ErrGettingTimeServerStatus) (select_case s (in_event i)) []"
  by (simp add: cycle_def)

lemma cycle_config_error:
  "in_event i \<noteq> CtxDone \<Longrightarrow> in_time_servers i = Found ts \<Longrightarrow> in_config i = OtherError \<Longrightarrow>
   cycle m s i = return_with (Some ErrGettingConfig) (select_case s (in_event i)) []"
  by (simp add: cycle_def)

lemma cycle_reconcile:
  "in_event i \<noteq> CtxDone \<Longrightarrow> in_time_servers i = Found ts \<Longrightarrow> in_config i \<noteq> OtherError \<Longrightarrow>
   cycle m s i =
     reconcile m (select_case s (in_event i)) ts (cfg_of (in_config i))
       (in_since_boot i) (in_timer_expired i) (in_modify_fails i)"
  by (simp add: cycle_def)

lemma cycle_not_Blocked:
  assumes "loop_inv s"
  shows "cycle m s i \<noteq> Blocked"
proof (cases "in_event i = CtxDone")
  case True
  then show ?thesis
    using return_with_inv [OF assms, of None "[]"] by (auto simp: cycle_CtxDone)
next
  case ev: False
  have i1: "loop_inv (select_case s (in_event i))" using assms by (rule loop_inv_select)
  show ?thesis
  proof (cases "in_time_servers i")
    case (Found ts)
    show ?thesis
    proof (cases "in_config i = OtherError")
      case True
      then show ?thesis
        using return_with_inv [OF i1, of "Some ErrGettingConfig" "[]"] ev Found
        by (auto simp: cycle_config_error)
    next
      case False
      then show ?thesis
        using reconcile_not_Blocked [OF i1] ev Found by (auto simp: cycle_reconcile)
    qed
  next
    case NotFoundError
    then show ?thesis using ev by (auto simp: cycle_NotFound)
  next
    case OtherError
    then show ?thesis
      using return_with_inv [OF i1, of "Some ErrGettingTimeServerStatus" "[]"] ev
      by (auto simp: cycle_servers_error)
  qed
qed

lemma cycle_Continue_inv:
  assumes "loop_inv s" and "cycle m s i = Continue s' a"
  shows "loop_inv s'"
proof (cases "in_event i = CtxDone")
  case True
  then show ?thesis
    using return_with_inv [OF assms(1), of None "[]"] assms(2) by (auto simp: cycle_CtxDone)
next
  case ev: False
  have i1: "loop_inv (select_case s (in_event i))" using assms(1) by (rule loop_inv_select)
  show ?thesis
  proof (cases "in_time_servers i")
    case (Found ts)
    show ?thesis
    proof (cases "in_config i = OtherError")
      case True
      then show ?thesis
        using return_with_inv [OF i1, of "Some ErrGettingConfig" "[]"] ev Found assms(2)
        by (auto simp: cycle_config_error)
    next
      case False
      then show ?thesis
        using reconcile_Continue_inv [OF i1] ev Found assms(2) by (auto simp: cycle_reconcile)
    qed
  next
    case NotFoundError
    then show ?thesis using ev i1 assms(2) by (auto simp: cycle_NotFound)
  next
    case OtherError
    then show ?thesis
      using return_with_inv [OF i1, of "Some ErrGettingTimeServerStatus" "[]"] ev assms(2)
      by (auto simp: cycle_servers_error)
  qed
qed

lemma after_Continue: "after a r = Continue s b \<Longrightarrow> \<exists>c. r = Continue s c \<and> b = a @ c"
  by (cases r) (auto simp: after_def)

lemma run_loop_inv:
  "loop_inv s \<Longrightarrow> run_loop m s is = Continue s' a \<Longrightarrow> loop_inv s'"
proof (induction "is" arbitrary: s a)
  case Nil
  then show ?case by simp
next
  case (Cons i "is")
  from Cons.prems(2) obtain s1 a1 where c: "cycle m s i = Continue s1 a1"
    by (cases "cycle m s i") auto
  with Cons.prems(2) obtain b where "run_loop m s1 is = Continue s' b"
    by (auto dest: after_Continue)
  moreover have "loop_inv s1" using Cons.prems(1) c by (rule cycle_Continue_inv)
  ultimately show ?case by (rule Cons.IH [rotated])
qed

lemma Run_inv: "Run m st is = Continue s a \<Longrightarrow> loop_inv s"
  unfolding Run_def using loop_inv_init by (rule run_loop_inv)

lemma run_loop_not_Blocked: "loop_inv s \<Longrightarrow> run_loop m s is \<noteq> Blocked"
proof (induction "is" arbitrary: s)
  case Nil
  then show ?case by simp
next
  case (Cons i "is")
  show ?case
  proof (cases "cycle m s i")
    case (Continue s1 a1)
    with Cons.prems have "loop_inv s1" by (auto intro: cycle_Continue_inv)
    then have "run_loop m s1 is \<noteq> Blocked" by (rule Cons.IH)
    with Continue show ?thesis by (cases "run_loop m s1 is") (auto simp: after_def)
  next
    case (Return e s1 a1)
    then show ?thesis by simp
  next
    case Blocked
    with cycle_not_Blocked [OF Cons.prems] show ?thesis by simp
  qed
qed

section \<open>What one iteration does\<close>

lemma return_with_not_Continue: "return_with e s a \<noteq> Continue s' b"
  by (simp add: return_with_def split: option.splits prod.splits)

lemma update_timeout_kept:
  assumes "update_timeout s T e x = (s2, a2)"
  shows "epoch s2 = epoch s" "syncer s2 = syncer s" "syncWg s2 = syncWg s"
    "published s2 = published s" "syncCh s2 = syncCh s" "epochCh s2 = epochCh s"
    "timeSynced s2 = (timeSynced s \<or> (T \<noteq> 0 \<and> sint T < sint e))"
    "list_all is_timer_call a2"
  using assms
  by (auto simp: update_timeout_def new_timer_def Let_def split: if_splits option.splits)

lemma reconcile_syncer_kept:
  assumes "reconcile_syncer s2 d ts = Some (s3, a3)"
  shows "epoch s3 = epoch s2" "published s3 = published s2"
    "timeSyncTimeoutTimer s3 = timeSyncTimeoutTimer s2"
    "timeSyncTimeoutCh s3 = timeSyncTimeoutCh s2"
    "timeSynced s3 = (if \<not> d \<and> syncer s2 = None then False else timeSynced s2)"
    "(syncer s3 \<noteq> None) = (\<not> d)"
    "a3 = (if d \<and> syncer s2 \<noteq> None
           then [SyncCtxCancel (syncer_id (the (syncer s2))), SyncWgWait]
           else if \<not> d \<and> syncer s2 = None
           then [NewNTPSyncer (syncer_id (the (syncer s3))) ts,
                 GoSyncerRun (syncer_id (the (syncer s3)))]
           else [])"
  using assms
  by (auto simp: reconcile_syncer_def stop_syncer_def start_syncer_def
           split: if_splits option.splits)

lemma set_time_servers_kept:
  assumes "set_time_servers s3 ts = (s4, a4)"
  shows "epoch s4 = epoch s3" "published s4 = published s3" "timeSynced s4 = timeSynced s3"
    "timeSyncTimeoutTimer s4 = timeSyncTimeoutTimer s3"
    "timeSyncTimeoutCh s4 = timeSyncTimeoutCh s3"
    "syncWg s4 = syncWg s3" "syncCh s4 = syncCh s3" "epochCh s4 = epochCh s3"
    "(syncer s4 \<noteq> None) = (syncer s3 \<noteq> None)"
    "map_option syncer_id (syncer s4) = map_option syncer_id (syncer s3)"
    "a4 = (case syncer s3 of None \<Rightarrow> [] | Some w \<Rightarrow> [SetTimeServers (syncer_id w) ts])"
  using assms by (auto simp: set_time_servers_def split: option.splits)

lemma reconcile_ContinueE:
  assumes "reconcile m s ts cfg e x f = Continue s' acts"
  obtains s2 a2 s3 a3 s4 a4 where
    "update_timeout s (sync_timeout cfg) e x = (s2, a2)"
    "reconcile_syncer s2 (sync_disabled m cfg) ts = Some (s3, a3)"
    "set_time_servers s3 ts = (s4, a4)"
    "\<not> f"
    "s' = (if sync_disabled m cfg then s4\<lparr>timeSynced := True\<rparr> else s4)
            \<lparr>published := Some \<lparr>Epoch = epoch s4,
                Synced = (sync_disabled m cfg \<or> timeSynced s4),
                SyncDisabled = sync_disabled m cfg\<rparr>\<rparr>"
    "acts = a2 @ a3 @ a4 @ [StatusModify \<lparr>Epoch = epoch s4,
                Synced = (sync_disabled m cfg \<or> timeSynced s4),
                SyncDisabled = sync_disabled m cfg\<rparr>]"
proof -
  obtain s2 a2 where u: "update_timeout s (sync_timeout cfg) e x = (s2, a2)"
    by (cases "update_timeout s (sync_timeout cfg) e x")
  obtain s3 a3 where r: "reconcile_syncer s2 (sync_disabled m cfg) ts = Some (s3, a3)"
    using assms u by (cases "reconcile_syncer s2 (sync_disabled m cfg) ts")
      (auto simp: reconcile_def)
  obtain s4 a4 where t: "set_time_servers s3 ts = (s4, a4)"
    by (cases "set_time_servers s3 ts")
  have nf: "\<not> f"
    using assms u r t by (auto simp: reconcile_def Let_def return_with_not_Continue)
  have "s' = (if sync_disabled m cfg then s4\<lparr>timeSynced := True\<rparr> else s4)
            \<lparr>published := Some \<lparr>Epoch = epoch s4,
                Synced = (sync_disabled m cfg \<or> timeSynced s4),
                SyncDisabled = sync_disabled m cfg\<rparr>\<rparr>"
    and "acts = a2 @ a3 @ a4 @ [StatusModify \<lparr>Epoch = epoch s4,
                Synced = (sync_disabled m cfg \<or> timeSynced s4),
                SyncDisabled = sync_disabled m cfg\<rparr>]"
    using assms u r t nf
    by (cases "sync_disabled m cfg";
        simp add: reconcile_def Let_def runtime_modify_def status_update_def)+
  with u r t nf show thesis by (rule that)
qed


lemma timer_call_only:
  "is_timer_call a \<Longrightarrow> \<not> is_status_write a \<and> \<not> is_syncer_start a \<and> \<not> is_syncer_stop a"
  by (cases a) simp_all

lemma timer_calls_filter:
  assumes "list_all is_timer_call as"
  shows "filter is_status_write as = []" "filter is_syncer_start as = []"
    "filter is_syncer_stop as = []"
  using assms by (induction as) (auto dest: timer_call_only)

lemma reconcile_Continue_facts:
  assumes "reconcile m s ts cfg e x f = Continue s' acts"
  shows "\<not> f"
    and "epoch s' = epoch s"
    and "timeSynced s' =
          (if sync_disabled m cfg then True
           else if syncer s = None then False
           else timeSynced s \<or> (sync_timeout cfg \<noteq> 0 \<and> sint (sync_timeout cfg) < sint e))"
    and "published s' =
          Some \<lparr>Epoch = epoch s', Synced = timeSynced s', SyncDisabled = sync_disabled m cfg\<rparr>"
    and "filter is_status_write acts =
          [StatusModify \<lparr>Epoch = epoch s', Synced = timeSynced s',
             SyncDisabled = sync_disabled m cfg\<rparr>]"
    and "(syncer s' \<noteq> None) = (\<not> sync_disabled m cfg)"
    and "filter is_syncer_start acts =
          (if \<not> sync_disabled m cfg \<and> syncer s = None
           then [NewNTPSyncer (syncer_id (the (syncer s'))) ts,
                 GoSyncerRun (syncer_id (the (syncer s')))]
           else [])"
    and "filter is_syncer_stop acts =
          (if sync_disabled m cfg \<and> syncer s \<noteq> None
           then [SyncCtxCancel (syncer_id (the (syncer s))), SyncWgWait]
           else [])"
proof -
  from assms obtain s2 a2 s3 a3 s4 a4 where
    u: "update_timeout s (sync_timeout cfg) e x = (s2, a2)" and
    r: "reconcile_syncer s2 (sync_disabled m cfg) ts = Some (s3, a3)" and
    t: "set_time_servers s3 ts = (s4, a4)" and
    nf: "\<not> f" and
    s': "s' = (if sync_disabled m cfg then s4\<lparr>timeSynced := True\<rparr> else s4)
            \<lparr>published := Some \<lparr>Epoch = epoch s4,
                Synced = (sync_disabled m cfg \<or> timeSynced s4),
                SyncDisabled = sync_disabled m cfg\<rparr>\<rparr>" and
    acts: "acts = a2 @ a3 @ a4 @ [StatusModify \<lparr>Epoch = epoch s4,
                Synced = (sync_disabled m cfg \<or> timeSynced s4),
                SyncDisabled = sync_disabled m cfg\<rparr>]"
    by (rule reconcile_ContinueE)
  note uk = update_timeout_kept [OF u]
  note rk = reconcile_syncer_kept [OF r]
  note tk = set_time_servers_kept [OF t]
  have ft: "filter is_status_write a2 = []" "filter is_syncer_start a2 = []"
    "filter is_syncer_stop a2 = []"
    using uk(8) by (simp_all add: timer_calls_filter)
  have id4: "syncer_id (the (syncer s4)) = syncer_id (the (syncer s3))"
    using tk(10) by (cases "syncer s3"; cases "syncer s4"; simp)
  show "\<not> f" by (rule nf)
  show "epoch s' = epoch s" by (simp add: s' uk rk tk)
  show ts': "timeSynced s' =
          (if sync_disabled m cfg then True
           else if syncer s = None then False
           else timeSynced s \<or> (sync_timeout cfg \<noteq> 0 \<and> sint (sync_timeout cfg) < sint e))"
    by (simp add: s' uk rk tk)
  show "published s' =
          Some \<lparr>Epoch = epoch s', Synced = timeSynced s', SyncDisabled = sync_disabled m cfg\<rparr>"
    by (simp add: s')
  show "filter is_status_write acts =
          [StatusModify \<lparr>Epoch = epoch s', Synced = timeSynced s',
             SyncDisabled = sync_disabled m cfg\<rparr>]"
    by (simp add: acts ft rk(7) tk(11) s' split: option.splits)
  show "(syncer s' \<noteq> None) = (\<not> sync_disabled m cfg)"
    using rk(6) tk(9) by (simp add: s')
  show "filter is_syncer_start acts =
          (if \<not> sync_disabled m cfg \<and> syncer s = None
           then [NewNTPSyncer (syncer_id (the (syncer s'))) ts,
                 GoSyncerRun (syncer_id (the (syncer s')))]
           else [])"
    using id4 by (simp add: acts ft rk(7) tk(11) uk(2) s' split: option.splits)
  show "filter is_syncer_stop acts =
          (if sync_disabled m cfg \<and> syncer s \<noteq> None
           then [SyncCtxCancel (syncer_id (the (syncer s))), SyncWgWait]
           else [])"
    by (simp add: acts ft rk(7) tk(11) uk(2) split: option.splits)
qed

lemma cycle_ContinueD:
  assumes "cycle m s i = Continue s' acts" and "in_time_servers i = Found ts"
  shows "in_event i \<noteq> CtxDone" and "in_config i \<noteq> OtherError"
    and "reconcile m (select_case s (in_event i)) ts (cfg_of (in_config i))
           (in_since_boot i) (in_timer_expired i) (in_modify_fails i) = Continue s' acts"
proof -
  show ev: "in_event i \<noteq> CtxDone"
    using assms(1) by (auto simp: cycle_CtxDone return_with_not_Continue)
  show cf: "in_config i \<noteq> OtherError"
    using assms ev by (auto simp: cycle_config_error return_with_not_Continue)
  show "reconcile m (select_case s (in_event i)) ts (cfg_of (in_config i))
           (in_since_boot i) (in_timer_expired i) (in_modify_fails i) = Continue s' acts"
    using assms ev cf by (simp add: cycle_reconcile)
qed

lemmas loop_defs =
  cycle_def reconcile_def cfg_of_def sync_disabled_def sync_timeout_def update_timeout_def
  new_timer_def reconcile_syncer_def start_syncer_def stop_syncer_def set_time_servers_def
  runtime_modify_def status_update_def NewStatus_def return_with_def deferred_def after_def

lemma select_case_published:
  "select_case (s\<lparr>published := p\<rparr>) e = (select_case s e)\<lparr>published := p\<rparr>"
  by (cases e) simp_all

lemma update_timeout_published:
  "update_timeout (s\<lparr>published := p\<rparr>) T e x =
     (case update_timeout s T e x of (s2, a2) \<Rightarrow> (s2\<lparr>published := p\<rparr>, a2))"
  by (simp add: update_timeout_def new_timer_def Let_def split: option.splits)

lemma reconcile_syncer_published:
  "reconcile_syncer (s\<lparr>published := p\<rparr>) d ts =
     (case reconcile_syncer s d ts of
        None \<Rightarrow> None
      | Some (s3, a3) \<Rightarrow> Some (s3\<lparr>published := p\<rparr>, a3))"
  by (simp add: reconcile_syncer_def stop_syncer_def start_syncer_def split: option.splits)

lemma set_time_servers_published:
  "set_time_servers (s\<lparr>published := p\<rparr>) ts =
     (case set_time_servers s ts of (s4, a4) \<Rightarrow> (s4\<lparr>published := p\<rparr>, a4))"
  by (simp add: set_time_servers_def split: option.splits)

lemma reconcile_published:
  "reconcile m (s\<lparr>published := p\<rparr>) ts cfg e x False = reconcile m s ts cfg e x False"
  by (simp add: reconcile_def Let_def update_timeout_published reconcile_syncer_published
        set_time_servers_published runtime_modify_def status_update_def
      split: prod.splits option.splits)

lemma cycle_example:
  "cycle ModeMetal (init_state st) example_input = Continue started_state started_calls"
  by (simp add: loop_defs init_state_def example_input_def started_state_def
        started_calls_def)

lemma Run_example: "Run ModeMetal st [example_input] = Continue started_state started_calls"
  by (simp add: Run_def cycle_example after_def)

lemma cycle_disabled:
  "cycle m (init_state st) disabled_input =
     Continue disabled_state
       [NewTimer 0 9, StatusModify \<lparr>Epoch = 0, Synced = True, SyncDisabled = True\<rparr>]"
  by (simp add: loop_defs init_state_def example_input_def disabled_input_def
        disabled_state_def)

lemma after_Nil: "after [] r = r"
  by (cases r) (simp_all add: after_def)

lemma select_case_kept:
  "syncer (select_case s e) = syncer s"
  "syncWg (select_case s e) = syncWg s"
  "published (select_case s e) = published s"
  "epochCh (select_case s e) = epochCh s"
  "next_id (select_case s e) = next_id s"
  "timeSyncTimeoutCh (select_case s e) = timeSyncTimeoutCh s"
  by (cases e; simp)+

lemma deferred_loop_inv:
  assumes "loop_inv s"
  shows "deferred s = Some (torn_down s, teardown_calls s)"
proof (cases "syncer s")
  case None
  with assms have "syncWg s = []" by (simp add: loop_inv_def)
  with None show ?thesis
    by (cases "timeSyncTimeoutTimer s")
       (simp_all add: deferred_def torn_down_def teardown_calls_def)
next
  case (Some w)
  with assms have "syncWg s = [syncer_id w]" by (simp add: loop_inv_def)
  with Some show ?thesis
    by (cases "timeSyncTimeoutTimer s")
       (simp_all add: deferred_def stop_syncer_def torn_down_def teardown_calls_def)
qed

lemma return_with_loop_inv:
  "loop_inv s \<Longrightarrow> return_with e s a = Return e (torn_down s) (a @ teardown_calls s)"
  by (simp add: return_with_def deferred_loop_inv)

lemma teardown_calls_no_write: "filter is_status_write (teardown_calls s) = []"
  by (simp add: teardown_calls_def split: option.splits)

lemma torn_down_kept:
  "published (torn_down s) = published s" "epoch (torn_down s) = epoch s"
  "timeSynced (torn_down s) = timeSynced s" "syncWg (torn_down s) = []"
  by (simp_all add: torn_down_def)

lemma reconcile_fails:
  assumes "loop_inv s"
  obtains s5 a where "loop_inv s5" and "published s5 = published s"
    and "filter is_status_write a = []"
    and "reconcile m s ts cfg e x True = return_with (Some ErrUpdatingObjects) s5 a"
proof -
  obtain s2 a2 where u: "update_timeout s (sync_timeout cfg) e x = (s2, a2)"
    by (cases "update_timeout s (sync_timeout cfg) e x")
  have i2: "loop_inv s2" using assms u by (rule loop_inv_update_timeout)
  obtain s3 a3 where r: "reconcile_syncer s2 (sync_disabled m cfg) ts = Some (s3, a3)"
    and i3: "loop_inv s3"
    using reconcile_syncer_inv [OF i2] by blast
  obtain s4 a4 where t: "set_time_servers s3 ts = (s4, a4)"
    by (cases "set_time_servers s3 ts")
  have i4: "loop_inv s4" using i3 t by (rule loop_inv_set_time_servers)
  define s5 where "s5 = (if sync_disabled m cfg then s4\<lparr>timeSynced := True\<rparr> else s4)"
  note uk = update_timeout_kept [OF u]
  note rk = reconcile_syncer_kept [OF r]
  note tk = set_time_servers_kept [OF t]
  have "loop_inv s5" using i4 by (simp add: s5_def loop_inv_timeSynced)
  moreover have "published s5 = published s" by (simp add: s5_def uk rk tk)
  moreover have "filter is_status_write (a2 @ a3 @ a4) = []"
    using timer_calls_filter(1) [OF uk(8)] by (simp add: rk(7) tk(11) split: option.splits)
  moreover have "reconcile m s ts cfg e x True =
      return_with (Some ErrUpdatingObjects) s5 (a2 @ a3 @ a4)"
    using u r t by (simp add: reconcile_def Let_def s5_def)
  ultimately show thesis by (rule that)
qed

lemma select_case_timeSynced:
  "timeSynced (select_case s e) = (timeSynced s \<or> e = SyncedSignal \<or> e = TimeoutFired)"
  by (cases e) simp_all

lemma select_case_epoch:
  "epoch (select_case s e) = epoch s + (if e = EpochChange then 1 else 0)"
  by (cases e) simp_all

lemma cycle_Continue_cases:
  assumes "cycle m s i = Continue s' acts"
  obtains (skip) "in_event i \<noteq> CtxDone" "in_time_servers i = NotFoundError"
      "s' = select_case s (in_event i)" "acts = []"
    | (full) ts where "in_event i \<noteq> CtxDone" "in_time_servers i = Found ts"
      "in_config i \<noteq> OtherError"
      "reconcile m (select_case s (in_event i)) ts (cfg_of (in_config i))
           (in_since_boot i) (in_timer_expired i) (in_modify_fails i) = Continue s' acts"
proof (cases "in_time_servers i")
  case (Found ts)
  from cycle_ContinueD [OF assms Found] Found show ?thesis by (blast intro: full)
next
  case NotFoundError
  have ev: "in_event i \<noteq> CtxDone"
    using assms by (auto simp: cycle_CtxDone return_with_not_Continue)
  with NotFoundError assms show ?thesis by (intro skip) (simp_all add: cycle_NotFound)
next
  case OtherError
  have ev: "in_event i \<noteq> CtxDone"
    using assms by (auto simp: cycle_CtxDone return_with_not_Continue)
  with OtherError assms show ?thesis
    by (simp add: cycle_servers_error return_with_not_Continue)
qed

lemma cycle_timeSynced:
  assumes "cycle m s i = Continue s' acts"
  shows "timeSynced s' =
    (if in_time_servers i = NotFoundError
     then timeSynced s \<or> in_event i = SyncedSignal \<or> in_event i = TimeoutFired
     else if sync_disabled m (cfg_of (in_config i)) then True
     else if filter is_syncer_start acts \<noteq> [] then False
     else timeSynced s \<or> in_event i = SyncedSignal \<or> in_event i = TimeoutFired \<or>
          (sync_timeout (cfg_of (in_config i)) \<noteq> 0 \<and>
           sint (sync_timeout (cfg_of (in_config i))) < sint (in_since_boot i)))"
  using assms
proof (cases rule: cycle_Continue_cases)
  case skip
  then show ?thesis by (simp add: select_case_timeSynced)
next
  case (full ts)
  note f = reconcile_Continue_facts [OF full(4)]
  from full(2) f(3,7) show ?thesis
    by (simp add: select_case_timeSynced select_case_kept)
qed

lemma cycle_started_iff:
  assumes "cycle m s i = Continue s' acts"
  shows "(filter is_syncer_start acts \<noteq> []) =
    ((\<exists>ts. in_time_servers i = Found ts) \<and> \<not> sync_disabled m (cfg_of (in_config i)) \<and>
     syncer s = None)"
  using assms
proof (cases rule: cycle_Continue_cases)
  case skip
  then show ?thesis by simp
next
  case (full ts)
  note f = reconcile_Continue_facts [OF full(4)]
  from full(2) f(7) show ?thesis by (simp add: select_case_kept)
qed

lemma filter_after:
  "after a r = Continue s b \<Longrightarrow> \<exists>c. r = Continue s c \<and> filter P b = filter P a @ filter P c"
  by (cases r) (auto simp: after_def)

lemma run_synced_monotone:
  "run_loop m s is = Continue s' acts \<Longrightarrow> timeSynced s \<Longrightarrow>
   filter is_syncer_start acts = [] \<Longrightarrow> timeSynced s'"
proof (induction "is" arbitrary: s acts)
  case Nil
  then show ?case by simp
next
  case (Cons i "is")
  from Cons.prems(1) obtain s1 a1 where c: "cycle m s i = Continue s1 a1"
    by (cases "cycle m s i") auto
  with Cons.prems(1) obtain b where r: "run_loop m s1 is = Continue s' b"
    and f: "filter is_syncer_start acts = filter is_syncer_start a1 @ filter is_syncer_start b"
    by (auto dest: filter_after)
  from f Cons.prems(3) have n: "filter is_syncer_start a1 = []" "filter is_syncer_start b = []"
    by simp_all
  have "timeSynced s1"
    using cycle_timeSynced [OF c] n(1) Cons.prems(2) by (simp split: if_splits)
  with r n(2) show ?case by (blast intro: Cons.IH)
qed

lemma cycle_epoch:
  assumes "cycle m s i = Continue s' acts"
  shows "epoch s' = epoch s + (if in_event i = EpochChange then 1 else 0)"
  using assms
proof (cases rule: cycle_Continue_cases)
  case skip
  then show ?thesis by (simp add: select_case_epoch)
next
  case (full ts)
  from reconcile_Continue_facts(2) [OF full(4)] show ?thesis
    by (simp add: select_case_epoch)
qed

lemma epoch_signals_Cons:
  "epoch_signals (i # is) = (if in_event i = EpochChange then 1 else 0) + epoch_signals is"
  by (simp add: epoch_signals_def)

lemma run_loop_epoch:
  "run_loop m s is = Continue s' acts \<Longrightarrow> epoch s' = epoch s + of_nat (epoch_signals is)"
proof (induction "is" arbitrary: s acts)
  case Nil
  then show ?case by (simp add: epoch_signals_def)
next
  case (Cons i "is")
  from Cons.prems obtain s1 a1 where c: "cycle m s i = Continue s1 a1"
    by (cases "cycle m s i") auto
  with Cons.prems obtain b where r: "run_loop m s1 is = Continue s' b"
    by (auto dest: after_Continue)
  from Cons.IH [OF r] cycle_epoch [OF c] show ?case
    by (simp add: epoch_signals_Cons)
qed

lemma sint_add_of_nat:
  fixes a :: "64 word"
  assumes "sint a + int n < 2 ^ 63"
  shows "sint (a + of_nat n) = sint a + int n"
proof -
  have e: "a + of_nat n = word_of_int (sint a + int n)" by simp
  have l: "- (2 ^ 63) \<le> sint a + int n" using sint_ge [of a] by simp
  have "sint (word_of_int (sint a + int n) :: 64 word) = signed_take_bit 63 (sint a + int n)"
    by (simp only: sint_sbintrunc') simp
  also have "\<dots> = sint a + int n"
    using l assms by (simp add: signed_take_bit_int_eq_self)
  finally show ?thesis by (simp only: e)
qed

lemma after_after: "after a (after b r) = after (a @ b) r"
  by (cases r) (simp_all add: after_def)

lemma run_loop_append:
  "run_loop m s (xs @ ys) =
     (case run_loop m s xs of
        Continue s1 a1 \<Rightarrow> after a1 (run_loop m s1 ys)
      | Return e s1 a1 \<Rightarrow> Return e s1 a1
      | Blocked \<Rightarrow> Blocked)"
proof (induction xs arbitrary: s)
  case Nil
  then show ?case by (simp add: after_Nil)
next
  case (Cons i xs)
  show ?case
  proof (cases "cycle m s i")
    case (Continue s1 a1)
    then show ?thesis
      by (cases "run_loop m s1 xs") (simp_all add: Cons.IH after_after, simp_all add: after_def)
  qed simp_all
qed

lemma run_loop_snoc:
  assumes "run_loop m s (xs @ [i]) = Continue s' acts"
  obtains s1 a1 a2 where "run_loop m s xs = Continue s1 a1" "cycle m s1 i = Continue s' a2"
    "acts = a1 @ a2"
proof -
  from assms obtain s1 a1 where r: "run_loop m s xs = Continue s1 a1"
    by (cases "run_loop m s xs") (simp_all add: run_loop_append)
  with assms have "after a1 (run_loop m s1 [i]) = Continue s' acts"
    by (simp add: run_loop_append)
  then obtain c where "run_loop m s1 [i] = Continue s' c" "acts = a1 @ c"
    by (auto dest: after_Continue)
  then obtain a2 where "cycle m s1 i = Continue s' a2" "acts = a1 @ a2"
    by (cases "cycle m s1 i") (auto simp: after_def)
  with r show thesis by (rule that)
qed

lemma sint_sub_nonneg:
  fixes T :: "64 word"
  assumes "0 \<le> sint e" and "sint e \<le> sint T"
  shows "sint (T - e) = sint T - sint e"
proof -
  have u: "sint T < 2 ^ 63" using sint_lt [of T] by simp
  have "sint (T - e) = signed_take_bit 63 (sint T - sint e)"
    by (simp add: sint_word_ariths)
  also have "\<dots> = sint T - sint e"
    using assms u by (simp add: signed_take_bit_int_eq_self)
  finally show ?thesis .
qed

lemma cycle_timer_needs_syncer:
  assumes "cycle m s i = Continue s' acts" and "timer_needs_syncer s"
  shows "timer_needs_syncer s'"
  using assms(1)
proof (cases rule: cycle_Continue_cases)
  case skip
  with assms(2) show ?thesis
    by (simp add: timer_needs_syncer_def select_case_kept select_case_timeSynced)
next
  case (full ts)
  note f = reconcile_Continue_facts [OF full(4)]
  from f(3,6) show ?thesis by (auto simp: timer_needs_syncer_def)
qed

lemma run_loop_timer_needs_syncer:
  "run_loop m s is = Continue s' acts \<Longrightarrow> timer_needs_syncer s \<Longrightarrow> timer_needs_syncer s'"
proof (induction "is" arbitrary: s acts)
  case Nil
  then show ?case by simp
next
  case (Cons i "is")
  from Cons.prems(1) obtain s1 a1 where c: "cycle m s i = Continue s1 a1"
    by (cases "cycle m s i") auto
  with Cons.prems(1) obtain b where r: "run_loop m s1 is = Continue s' b"
    by (auto dest: after_Continue)
  from c Cons.prems(2) have "timer_needs_syncer s1" by (rule cycle_timer_needs_syncer)
  with r show ?case by (rule Cons.IH)
qed

lemma Run_timer_needs_syncer: "Run m st is = Continue s a \<Longrightarrow> timer_needs_syncer s"
  unfolding Run_def
  by (erule run_loop_timer_needs_syncer) (simp add: timer_needs_syncer_def init_state_def)

lemma run_loop_skipped:
  "list_all skipped is \<Longrightarrow>
   run_loop m s is = Continue (foldl select_case s (map in_event is)) []"
  by (induction "is" arbitrary: s) (simp_all add: skipped_def cycle_NotFound after_Nil)

lemma foldl_select_case_kept:
  "syncer (foldl select_case s es) = syncer s"
  "timeSynced s \<Longrightarrow> timeSynced (foldl select_case s es)"
  by (induction es arbitrary: s) (simp_all add: select_case_kept select_case_timeSynced)

lemma cycle_Return_syncWg:
  assumes "loop_inv s" and "cycle m s i = Return e s' acts"
  shows "syncWg s' = []"
proof (cases "in_event i = CtxDone")
  case True
  with assms show ?thesis
    by (auto simp: cycle_CtxDone return_with_loop_inv torn_down_kept)
next
  case ev: False
  have i1: "loop_inv (select_case s (in_event i))" using assms(1) by (rule loop_inv_select)
  show ?thesis
  proof (cases "in_time_servers i")
    case (Found ts)
    show ?thesis
    proof (cases "in_config i = OtherError")
      case True
      with Found ev i1 assms(2) show ?thesis
        by (auto simp: cycle_config_error return_with_loop_inv torn_down_kept)
    next
      case False
      show ?thesis
      proof (cases "in_modify_fails i")
        case True
        obtain s5 a where "loop_inv s5"
          and "reconcile m (select_case s (in_event i)) ts (cfg_of (in_config i))
               (in_since_boot i) (in_timer_expired i) True =
             return_with (Some ErrUpdatingObjects) s5 a"
          using reconcile_fails [OF i1] by metis
        with Found False True ev assms(2) show ?thesis
          by (auto simp: cycle_reconcile return_with_loop_inv torn_down_kept)
      next
        case nf: False
        obtain s5 a where
          "\<exists>p q. reconcile m (select_case s (in_event i)) ts (cfg_of (in_config i))
               (in_since_boot i) (in_timer_expired i) False = Continue p q"
          using reconcile_cases [OF i1, of m ts "cfg_of (in_config i)" "in_since_boot i"
              "in_timer_expired i"] by metis
        with Found False nf ev assms(2) show ?thesis
          by (auto simp: cycle_reconcile)
      qed
    qed
  next
    case NotFoundError
    with ev assms(2) show ?thesis by (simp add: cycle_NotFound)
  next
    case OtherError
    with ev i1 assms(2) show ?thesis
      by (auto simp: cycle_servers_error return_with_loop_inv torn_down_kept)
  qed
qed

section \<open>Example runs\<close>

lemma cycle_synced:
  "cycle ModeMetal started_state synced_input = Continue synced_state synced_calls"
  by (simp add: loop_defs example_input_def synced_input_def started_state_def
        synced_state_def synced_calls_def)

lemma cycle_synced_again:
  "cycle ModeMetal synced_state example_input = Continue synced_state synced_calls"
  by (simp add: loop_defs example_input_def started_state_def synced_state_def
        synced_calls_def)

lemma cycle_stopped:
  "cycle ModeMetal started_state disabled_input = Continue stopped_state stopped_calls"
  by (simp add: loop_defs example_input_def disabled_input_def started_state_def
        stopped_state_def stopped_calls_def)

lemma run_epoch_example:
  "run_loop ModeMetal started_state epoch_run = Continue epoch_run_state epoch_run_calls"
  by (simp add: loop_defs epoch_run_def epoch_input_def disabled_input_def example_input_def
        started_state_def epoch_run_state_def epoch_run_calls_def)

lemma cycle_late:
  "cycle ModeMetal started_state late_input = Continue late_state late_calls"
  by (simp add: loop_defs late_input_def example_input_def started_state_def late_state_def
        late_calls_def)

lemma Run_disabled:
  "Run ModeMetal None [disabled_input] =
     Continue disabled_state
       [NewTimer 0 9, StatusModify \<lparr>Epoch = 0, Synced = True, SyncDisabled = True\<rparr>]"
  by (simp add: Run_def cycle_disabled after_def)

lemma cycle_fired:
  "cycle ModeMetal disabled_state fired_skip_input = Continue fired_state []"
  by (simp add: cycle_def fired_skip_input_def not_found_input_def example_input_def
        fired_state_def disabled_state_def)

lemma cycle_restarted:
  "cycle ModeMetal fired_state reenabled_input = Continue restarted_state restarted_calls"
  by (simp add: loop_defs reenabled_input_def example_input_def fired_state_def
        disabled_state_def restarted_state_def restarted_calls_def)

lemma run_caught_up:
  "run_loop ModeMetal started_state [synced_skip_input, epoch_skip_input, example_input] =
     Continue caught_up_state caught_up_calls"
  by (simp add: loop_defs synced_skip_input_def epoch_skip_input_def not_found_input_def
        example_input_def started_state_def caught_up_state_def caught_up_calls_def)

section \<open>The claims\<close>

text \<open>
  Claim C1. An iteration that reaches the status write and goes on has published exactly
  the epoch, the synced flag and the disabled decision it computed: the status in the
  store is that triple, the iteration made exactly one status write and it wrote that
  triple, and whatever status the store held before (\<open>prior\<close>) the iteration ends in
  the same state with the same calls, so no field of an earlier status survives.
\<close>

theorem status_write_total:
  assumes "cycle m s i = Continue s' acts" and "in_time_servers i = Found ts"
  shows "published s' =
           Some \<lparr>Epoch = epoch s', Synced = timeSynced s',
                 SyncDisabled = sync_disabled m (cfg_of (in_config i))\<rparr> \<and>
         filter is_status_write acts =
           [StatusModify \<lparr>Epoch = epoch s', Synced = timeSynced s',
              SyncDisabled = sync_disabled m (cfg_of (in_config i))\<rparr>] \<and>
         cycle m (s\<lparr>published := prior\<rparr>) i = Continue s' acts"
proof -
  note d = cycle_ContinueD [OF assms]
  note f = reconcile_Continue_facts [OF d(3)]
  have "cycle m (s\<lparr>published := prior\<rparr>) i = cycle m s i"
    using d(1,2) assms(2) f(1)
    by (simp add: cycle_reconcile select_case_published reconcile_published)
  with f(4,5) assms(1) show ?thesis by simp
qed

theorem status_write_total_witness:
  "cycle ModeMetal (init_state None) example_input = Continue started_state started_calls \<and>
   in_time_servers example_input = Found [''pool.ntp.org''] \<and>
   published started_state = Some \<lparr>Epoch = 0, Synced = False, SyncDisabled = False\<rparr> \<and>
   filter is_status_write started_calls =
     [StatusModify \<lparr>Epoch = 0, Synced = False, SyncDisabled = False\<rparr>] \<and>
   cycle ModeMetal (init_state (Some \<lparr>Epoch = 7, Synced = True, SyncDisabled = True\<rparr>))
     example_input = Continue started_state started_calls"
proof -
  have h1: "cycle ModeMetal (init_state None) example_input =
      Continue started_state started_calls"
    by (rule cycle_example)
  have h2: "in_time_servers example_input = Found [''pool.ntp.org'']"
    by (simp add: example_input_def)
  have e: "(init_state None)\<lparr>published := Some \<lparr>Epoch = 7, Synced = True, SyncDisabled = True\<rparr>\<rparr>
      = init_state (Some \<lparr>Epoch = 7, Synced = True, SyncDisabled = True\<rparr>)"
    "epoch started_state = 0" "timeSynced started_state = False"
    "sync_disabled ModeMetal (cfg_of (in_config example_input)) = False"
    by (simp_all add: init_state_def started_state_def sync_disabled_def cfg_of_def
          example_input_def)
  from status_write_total [OF h1 h2, of "Some \<lparr>Epoch = 7, Synced = True, SyncDisabled = True\<rparr>"]
  show ?thesis unfolding e using h1 h2 by blast
qed

text \<open>
  Claim C2, as the code has it. In an iteration of a running loop that comes to the
  timeout step with the synced flag not set (\<open>T\<close> the boot timeout of the configuration
  just read, \<open>e\<close> the time since boot, \<open>x\<close> whether the held timer has expired):
  \<^item> with \<open>T = 0\<close> the held timer, if any, is stopped, the loop no longer listens to a
    timer channel, and the flag stays unset;
  \<^item> with \<open>T\<close> nonzero and \<open>e\<close> beyond it the flag is set and nothing else happens:
    no call is made on the timer, the timer variable and the channel are as before, so
    a timer that was armed stays armed and listened to;
  \<^item> otherwise the flag stays unset and afterwards the loop holds, and listens to, a
    timer armed for \<open>T - e\<close>: the held timer reset when it was still active, else a new
    timer in its place. \<open>T - e\<close> is the 64-bit difference, and with \<open>e\<close> not negative
    it is the difference of the signed values.
\<close>

theorem boot_timeout_step:
  assumes "Run m st is = Continue s a0"
    and "\<not> timeSynced (select_case s ev)"
    and "update_timeout (select_case s ev) T e x = (s2, a2)"
  shows
    "(T = 0 \<longrightarrow>
        \<not> timeSynced s2 \<and> timeSyncTimeoutCh s2 = None \<and>
        timeSyncTimeoutTimer s2 =
          map_option (\<lambda>t. t\<lparr>timer_armed := False\<rparr>) (timeSyncTimeoutTimer (select_case s ev)) \<and>
        a2 = (case timeSyncTimeoutTimer (select_case s ev) of
                None \<Rightarrow> [] | Some t \<Rightarrow> [TimerStop (timer_id t)])) \<and>
     (T \<noteq> 0 \<and> sint T < sint e \<longrightarrow>
        timeSynced s2 \<and> a2 = [] \<and>
        timeSyncTimeoutTimer s2 = timeSyncTimeoutTimer (select_case s ev) \<and>
        timeSyncTimeoutCh s2 = timeSyncTimeoutCh (select_case s ev)) \<and>
     (T \<noteq> 0 \<and> \<not> sint T < sint e \<longrightarrow>
        \<not> timeSynced s2 \<and>
        (\<exists>t. timeSyncTimeoutTimer s2 = Some t \<and> timer_armed t \<and> timer_d t = T - e \<and>
             timeSyncTimeoutCh s2 = Some (timer_id t) \<and>
             (a2 = [TimerReset (timer_id t) (T - e) True] \<and>
                map_option timer_id (timeSyncTimeoutTimer (select_case s ev)) =
                  Some (timer_id t) \<or>
              a2 = [NewTimer (timer_id t) (T - e)] \<and>
                timeSyncTimeoutTimer (select_case s ev) = None \<and>
                timer_id t = next_id (select_case s ev) \<or>
              (\<exists>old. a2 = [TimerReset (timer_id old) (T - e) False,
                            NewTimer (timer_id t) (T - e)] \<and>
                 timeSyncTimeoutTimer (select_case s ev) = Some old \<and>
                 timer_id t = next_id (select_case s ev)))) \<and>
        (0 \<le> sint e \<longrightarrow> sint (T - e) = sint T - sint e))"
proof -
  have inv: "loop_inv (select_case s ev)"
    using assms(1) by (intro loop_inv_select Run_inv)
  define s1 where "s1 = select_case s ev"
  have inv1: "loop_inv s1" and ns: "\<not> timeSynced s1"
    and u: "update_timeout s1 T e x = (s2, a2)"
    using inv assms(2,3) by (simp_all add: s1_def)
  have z: "T = 0 \<longrightarrow>
        \<not> timeSynced s2 \<and> timeSyncTimeoutCh s2 = None \<and>
        timeSyncTimeoutTimer s2 =
          map_option (\<lambda>t. t\<lparr>timer_armed := False\<rparr>) (timeSyncTimeoutTimer s1) \<and>
        a2 = (case timeSyncTimeoutTimer s1 of
                None \<Rightarrow> [] | Some t \<Rightarrow> [TimerStop (timer_id t)])"
    using ns u by (auto simp: update_timeout_def split: option.splits)
  have l: "T \<noteq> 0 \<and> sint T < sint e \<longrightarrow>
        timeSynced s2 \<and> a2 = [] \<and>
        timeSyncTimeoutTimer s2 = timeSyncTimeoutTimer s1 \<and>
        timeSyncTimeoutCh s2 = timeSyncTimeoutCh s1"
    using ns u by (auto simp: update_timeout_def)
  have a: "T \<noteq> 0 \<and> \<not> sint T < sint e \<longrightarrow>
        \<not> timeSynced s2 \<and>
        (\<exists>t. timeSyncTimeoutTimer s2 = Some t \<and> timer_armed t \<and> timer_d t = T - e \<and>
             timeSyncTimeoutCh s2 = Some (timer_id t) \<and>
             (a2 = [TimerReset (timer_id t) (T - e) True] \<and>
                map_option timer_id (timeSyncTimeoutTimer s1) = Some (timer_id t) \<or>
              a2 = [NewTimer (timer_id t) (T - e)] \<and>
                timeSyncTimeoutTimer s1 = None \<and> timer_id t = next_id s1 \<or>
              (\<exists>old. a2 = [TimerReset (timer_id old) (T - e) False,
                            NewTimer (timer_id t) (T - e)] \<and>
                 timeSyncTimeoutTimer s1 = Some old \<and> timer_id t = next_id s1)))"
  proof (cases "timeSyncTimeoutTimer s1")
    case None
    with ns u show ?thesis
      by (auto simp: update_timeout_def new_timer_def Let_def)
  next
    case (Some t0)
    with inv1 have c: "timer_armed t0 \<longrightarrow> timeSyncTimeoutCh s1 = Some (timer_id t0)"
      by (simp add: loop_inv_def)
    from Some ns u c show ?thesis
      by (auto simp: update_timeout_def new_timer_def Let_def split: if_splits)
  qed
  have i: "T \<noteq> 0 \<and> \<not> sint T < sint e \<longrightarrow> 0 \<le> sint e \<longrightarrow> sint (T - e) = sint T - sint e"
    by (simp add: sint_sub_nonneg)
  from z l a i show ?thesis unfolding s1_def by blast
qed

theorem boot_timeout_step_witness:
  "Run ModeMetal None [] = Continue (init_state None) [] \<and>
   \<not> timeSynced (select_case (init_state None) RuntimeEvent) \<and>
   update_timeout (select_case (init_state None) RuntimeEvent) 10 1 False =
     (new_timer (init_state None) 9, [NewTimer 0 9]) \<and>
   timeSyncTimeoutTimer (new_timer (init_state None) 9) =
     Some \<lparr>timer_id = 0, timer_armed = True, timer_d = 9\<rparr> \<and>
   timeSyncTimeoutCh (new_timer (init_state None) 9) = Some 0 \<and>
   Run ModeMetal None [example_input] = Continue started_state started_calls \<and>
   \<not> timeSynced (select_case started_state RuntimeEvent) \<and>
   update_timeout (select_case started_state RuntimeEvent) 1 2 False =
     (started_state\<lparr>timeSynced := True\<rparr>, []) \<and>
   update_timeout (select_case started_state RuntimeEvent) 0 2 False =
     (started_state\<lparr>timeSyncTimeoutTimer :=
          Some \<lparr>timer_id = 0, timer_armed = False, timer_d = 9\<rparr>,
        timeSyncTimeoutCh := None\<rparr>, [TimerStop 0]) \<and>
   update_timeout (select_case started_state RuntimeEvent) 10 3 False =
     (started_state\<lparr>timeSyncTimeoutTimer :=
          Some \<lparr>timer_id = 0, timer_armed = True, timer_d = 7\<rparr>\<rparr>,
      [TimerReset 0 7 True]) \<and>
   sint (10 - 3 :: 64 word) = sint (10 :: 64 word) - sint (3 :: 64 word)"
proof -
  have r0: "Run ModeMetal None [] = Continue (init_state None) []"
    by (simp add: Run_def)
  have r1: "Run ModeMetal None [example_input] = Continue started_state started_calls"
    by (rule Run_example)
  have n0: "\<not> timeSynced (select_case (init_state None) RuntimeEvent)"
    and n1: "\<not> timeSynced (select_case started_state RuntimeEvent)"
    by (simp_all add: init_state_def started_state_def)
  have u0: "update_timeout (select_case (init_state None) RuntimeEvent) 10 1 False =
     (new_timer (init_state None) 9, [NewTimer 0 9])"
    by (simp add: update_timeout_def init_state_def new_timer_def)
  have u1: "update_timeout (select_case started_state RuntimeEvent) 1 2 False =
     (started_state\<lparr>timeSynced := True\<rparr>, [])"
    by (simp add: update_timeout_def started_state_def)
  have u2: "update_timeout (select_case started_state RuntimeEvent) 0 2 False =
     (started_state\<lparr>timeSyncTimeoutTimer :=
          Some \<lparr>timer_id = 0, timer_armed = False, timer_d = 9\<rparr>,
        timeSyncTimeoutCh := None\<rparr>, [TimerStop 0])"
    by (simp add: update_timeout_def started_state_def)
  have u3: "update_timeout (select_case started_state RuntimeEvent) 10 3 False =
     (started_state\<lparr>timeSyncTimeoutTimer :=
          Some \<lparr>timer_id = 0, timer_armed = True, timer_d = 7\<rparr>\<rparr>,
      [TimerReset 0 7 True])"
    by (simp add: update_timeout_def started_state_def)
  have c: "(10 :: 64 word) \<noteq> 0" "\<not> sint (10 :: 64 word) < sint (1 :: 64 word)"
    "\<not> sint (10 :: 64 word) < sint (3 :: 64 word)" "0 \<le> sint (3 :: 64 word)"
    by simp_all
  from boot_timeout_step [OF r0 n0 u0] c
  have t0: "timeSyncTimeoutTimer (new_timer (init_state None) 9) =
       Some \<lparr>timer_id = 0, timer_armed = True, timer_d = 9\<rparr> \<and>
     timeSyncTimeoutCh (new_timer (init_state None) 9) = Some 0"
    by (auto simp: init_state_def)
  from boot_timeout_step [OF r1 n1 u3] c
  have t3: "sint (10 - 3 :: 64 word) = sint (10 :: 64 word) - sint (3 :: 64 word)"
    by blast
  from r0 r1 n0 n1 u0 u1 u2 u3 t0 t3 show ?thesis by blast
qed

text \<open>
  Claim C2 as stated fails in its second case. After the first iteration on
  \<open>example_input\<close> the loop holds timer 0, armed for 9, and the flag is unset. The next
  iteration reads a boot timeout of 1 at 2 after boot: the flag is set, and the timer is
  not disarmed. It is still armed, the loop still listens to its channel, and the
  iteration made no call on a timer.
\<close>

theorem boot_timeout_elapsed_counterexample:
  "Run ModeMetal None [example_input] = Continue started_state started_calls \<and>
   timeSyncTimeoutTimer started_state = Some \<lparr>timer_id = 0, timer_armed = True, timer_d = 9\<rparr> \<and>
   \<not> timeSynced (select_case started_state (in_event late_input)) \<and>
   sync_timeout (cfg_of (in_config late_input)) \<noteq> 0 \<and>
   sint (sync_timeout (cfg_of (in_config late_input))) < sint (in_since_boot late_input) \<and>
   cycle ModeMetal started_state late_input = Continue late_state late_calls \<and>
   timeSynced late_state \<and>
   timeSyncTimeoutTimer late_state = Some \<lparr>timer_id = 0, timer_armed = True, timer_d = 9\<rparr> \<and>
   timeSyncTimeoutCh late_state = Some 0 \<and>
   enabled late_state TimeoutFired \<and>
   filter is_timer_call late_calls = []"
  by (simp add: Run_example cycle_late)
     (simp add: late_input_def example_input_def started_state_def late_state_def
        late_calls_def sync_timeout_def cfg_of_def)

text \<open>
  Claim C3. For an iteration of a running loop that reaches the status write and goes on:
  afterwards a syncer is held exactly when sync is enabled, and before and after the
  iteration the wait group counts exactly the goroutine of the syncer held, so never more
  than one. The iteration starts a syncer (one \<^verbatim>\<open>NewNTPSyncer\<close>, one goroutine)
  exactly when sync is enabled and no worker is running, and it cancels and awaits one
  exactly when sync is disabled and a worker is running. An iteration \<open>j\<close> in which
  \<^verbatim>\<open>Run\<close> returns leaves no worker at all (that stop, made by the deferred function,
  is the subject of \<open>cancellation_tears_down\<close>).
\<close>

theorem worker_lifecycle:
  assumes "Run m st is = Continue s a0" and "cycle m s i = Continue s' acts"
    and "in_time_servers i = Found ts"
  shows "(syncer s' \<noteq> None) = (\<not> sync_disabled m (cfg_of (in_config i))) \<and>
         syncWg s = (case syncer s of None \<Rightarrow> [] | Some w \<Rightarrow> [syncer_id w]) \<and>
         syncWg s' = (case syncer s' of None \<Rightarrow> [] | Some w \<Rightarrow> [syncer_id w]) \<and>
         length (syncWg s) \<le> 1 \<and> length (syncWg s') \<le> 1 \<and>
         filter is_syncer_start acts =
           (if \<not> sync_disabled m (cfg_of (in_config i)) \<and> syncWg s = []
            then [NewNTPSyncer (syncer_id (the (syncer s'))) ts,
                  GoSyncerRun (syncer_id (the (syncer s')))]
            else []) \<and>
         filter is_syncer_stop acts =
           (if sync_disabled m (cfg_of (in_config i)) \<and> syncWg s \<noteq> []
            then [SyncCtxCancel (syncer_id (the (syncer s))), SyncWgWait]
            else []) \<and>
         (cycle m s j = Return e r b \<longrightarrow> syncWg r = [])"
proof -
  have inv: "loop_inv s" using assms(1) by (rule Run_inv)
  have inv': "loop_inv s'" using inv assms(2) by (rule cycle_Continue_inv)
  have w: "syncWg s = (case syncer s of None \<Rightarrow> [] | Some w \<Rightarrow> [syncer_id w])"
    using inv by (simp add: loop_inv_def)
  have w': "syncWg s' = (case syncer s' of None \<Rightarrow> [] | Some w \<Rightarrow> [syncer_id w])"
    using inv' by (simp add: loop_inv_def)
  have n: "(syncWg s = []) = (syncer s = None)"
    using w by (simp split: option.splits)
  have l: "length (syncWg s) \<le> 1" "length (syncWg s') \<le> 1"
    using w w' by (simp_all split: option.splits)
  have r: "cycle m s j = Return e r b \<longrightarrow> syncWg r = []"
    using cycle_Return_syncWg [OF inv] by blast
  note f = reconcile_Continue_facts [OF cycle_ContinueD(3) [OF assms(2,3)]]
  from f(6,7,8) w w' n l r show ?thesis by (simp add: select_case_kept)
qed

theorem worker_lifecycle_witness:
  "Run ModeMetal None [] = Continue (init_state None) [] \<and>
   cycle ModeMetal (init_state None) example_input = Continue started_state started_calls \<and>
   in_time_servers example_input = Found [''pool.ntp.org''] \<and>
   \<not> sync_disabled ModeMetal (cfg_of (in_config example_input)) \<and>
   syncWg (init_state None) = [] \<and>
   syncWg started_state = [1] \<and>
   filter is_syncer_start started_calls =
     [NewNTPSyncer 1 [''pool.ntp.org''], GoSyncerRun 1] \<and>
   filter is_syncer_stop started_calls = [] \<and>
   Run ModeMetal None [example_input] = Continue started_state started_calls \<and>
   cycle ModeMetal started_state disabled_input = Continue stopped_state stopped_calls \<and>
   sync_disabled ModeMetal (cfg_of (in_config disabled_input)) \<and>
   syncWg stopped_state = [] \<and>
   filter is_syncer_start stopped_calls = [] \<and>
   filter is_syncer_stop stopped_calls = [SyncCtxCancel 1, SyncWgWait]"
proof -
  have h1: "Run ModeMetal None [] = Continue (init_state None) []"
    by (simp add: Run_def)
  have h2: "cycle ModeMetal (init_state None) example_input =
      Continue started_state started_calls"
    by (rule cycle_example)
  have h3: "in_time_servers example_input = Found [''pool.ntp.org'']"
    "in_time_servers disabled_input = Found [''pool.ntp.org'']"
    by (simp_all add: example_input_def disabled_input_def)
  have h4: "Run ModeMetal None [example_input] = Continue started_state started_calls"
    by (rule Run_example)
  have h5: "cycle ModeMetal started_state disabled_input =
      Continue stopped_state stopped_calls"
    by (rule cycle_stopped)
  have e: "sync_disabled ModeMetal (cfg_of (in_config example_input)) = False"
    "sync_disabled ModeMetal (cfg_of (in_config disabled_input)) = True"
    "syncWg (init_state None) = []" "syncer (init_state None) = None"
    "syncer started_state = Some \<lparr>syncer_id = 1, syncer_servers = [''pool.ntp.org'']\<rparr>"
    "syncer stopped_state = None"
    by (simp_all add: sync_disabled_def cfg_of_def example_input_def disabled_input_def
          init_state_def started_state_def stopped_state_def)
  from worker_lifecycle [OF h1 h2 h3(1)] worker_lifecycle [OF h4 h5 h3(2)] h1 h2 h3 h4 h5 e
  show ?thesis by simp
qed

text \<open>
  Claim C4. For an iteration that goes on, the synced flag afterwards is: in a skipped
  iteration, the flag before or a synced signal or a timer firing; otherwise true when
  sync is disabled, else false when the iteration started a syncer, else the flag before
  or a synced signal, a timer firing, or a nonzero boot timeout already exceeded. So the
  flag is false after every start of a syncer, it goes from true to false only in an
  iteration that starts a syncer, it goes from false to true only on a synced signal, on
  the deadline (timer or elapsed time) or when sync is disabled, and over any further run
  that starts no syncer a true flag stays true.
\<close>

theorem synced_flag_changes:
  assumes "cycle m s i = Continue s' acts"
  shows
    "timeSynced s' =
      (if in_time_servers i = NotFoundError
       then timeSynced s \<or> in_event i = SyncedSignal \<or> in_event i = TimeoutFired
       else if sync_disabled m (cfg_of (in_config i)) then True
       else if filter is_syncer_start acts \<noteq> [] then False
       else timeSynced s \<or> in_event i = SyncedSignal \<or> in_event i = TimeoutFired \<or>
            (sync_timeout (cfg_of (in_config i)) \<noteq> 0 \<and>
             sint (sync_timeout (cfg_of (in_config i))) < sint (in_since_boot i))) \<and>
     (filter is_syncer_start acts \<noteq> [] \<longrightarrow> \<not> timeSynced s') \<and>
     (timeSynced s \<and> \<not> timeSynced s' \<longrightarrow> filter is_syncer_start acts \<noteq> []) \<and>
     (\<not> timeSynced s \<and> timeSynced s' \<longrightarrow>
        in_event i = SyncedSignal \<or> in_event i = TimeoutFired \<or>
        in_time_servers i \<noteq> NotFoundError \<and>
        (sync_disabled m (cfg_of (in_config i)) \<or>
         sync_timeout (cfg_of (in_config i)) \<noteq> 0 \<and>
         sint (sync_timeout (cfg_of (in_config i))) < sint (in_since_boot i))) \<and>
     (run_loop m s' rest = Continue s'' acts' \<and> timeSynced s' \<and>
      filter is_syncer_start acts' = [] \<longrightarrow> timeSynced s'')"
proof -
  note t = cycle_timeSynced [OF assms]
  note st = cycle_started_iff [OF assms]
  have 1: "filter is_syncer_start acts \<noteq> [] \<longrightarrow> \<not> timeSynced s'"
    using t st by auto
  have 2: "timeSynced s \<and> \<not> timeSynced s' \<longrightarrow> filter is_syncer_start acts \<noteq> []"
    using t by (auto split: if_splits)
  have 3: "\<not> timeSynced s \<and> timeSynced s' \<longrightarrow>
        in_event i = SyncedSignal \<or> in_event i = TimeoutFired \<or>
        in_time_servers i \<noteq> NotFoundError \<and>
        (sync_disabled m (cfg_of (in_config i)) \<or>
         sync_timeout (cfg_of (in_config i)) \<noteq> 0 \<and>
         sint (sync_timeout (cfg_of (in_config i))) < sint (in_since_boot i))"
    using t by (auto split: if_splits)
  have 4: "run_loop m s' rest = Continue s'' acts' \<and> timeSynced s' \<and>
      filter is_syncer_start acts' = [] \<longrightarrow> timeSynced s''"
    using run_synced_monotone by blast
  from t 1 2 3 4 show ?thesis by blast
qed

theorem synced_flag_changes_witness:
  "cycle ModeMetal started_state synced_input = Continue synced_state synced_calls \<and>
   in_event synced_input = SyncedSignal \<and>
   \<not> timeSynced started_state \<and>
   timeSynced synced_state \<and>
   filter is_syncer_start synced_calls = [] \<and>
   run_loop ModeMetal synced_state [example_input] = Continue synced_state synced_calls \<and>
   cycle ModeMetal (init_state None) example_input = Continue started_state started_calls \<and>
   filter is_syncer_start started_calls \<noteq> []"
proof -
  have h1: "cycle ModeMetal started_state synced_input = Continue synced_state synced_calls"
    by (rule cycle_synced)
  have h2: "cycle ModeMetal (init_state None) example_input =
      Continue started_state started_calls"
    by (rule cycle_example)
  have h3: "run_loop ModeMetal synced_state [example_input] =
      Continue synced_state synced_calls"
    by (simp add: cycle_synced_again after_def)
  have e: "in_event synced_input = SyncedSignal" "in_time_servers synced_input \<noteq> NotFoundError"
    "\<not> sync_disabled ModeMetal (cfg_of (in_config synced_input))"
    "filter is_syncer_start synced_calls = []"
    "filter is_syncer_start started_calls \<noteq> []"
    by (simp_all add: synced_input_def example_input_def sync_disabled_def cfg_of_def
          synced_calls_def started_calls_def)
  from synced_flag_changes [OF h2, of "[]"] e(5)
  have n: "\<not> timeSynced started_state" by blast
  from synced_flag_changes [OF h1, of "[example_input]" synced_state synced_calls] e
  have y: "timeSynced synced_state" by simp
  from h1 h2 h3 e n y show ?thesis by blast
qed

text \<open>
  Claim C5. The epoch counter is 0 when \<^verbatim>\<open>Run\<close> starts. Over any run of iterations
  that leaves the loop running it grows by the number of epoch-change signals consumed,
  whatever else happened in the run (syncers stopped, syncers started, iterations
  skipped); the counter is a Go \<^verbatim>\<open>int\<close>, so this is an equation of 64-bit words, and
  as long as the count stays below \<open>2 ^ 63\<close> the signed value grows by exactly that
  number and does not decrease. When the last iteration of the run reached the status
  write, the published epoch is that value.
\<close>

theorem epoch_counts_signals:
  assumes "run_loop m s is = Continue s' acts"
  shows "epoch (init_state st) = 0 \<and>
         epoch s' = epoch s + of_nat (epoch_signals is) \<and>
         (sint (epoch s) + int (epoch_signals is) < 2 ^ 63 \<longrightarrow>
            sint (epoch s') = sint (epoch s) + int (epoch_signals is) \<and>
            sint (epoch s) \<le> sint (epoch s')) \<and>
         (is \<noteq> [] \<and> in_time_servers (last is) \<noteq> NotFoundError \<longrightarrow>
            map_option Epoch (published s') = Some (epoch s + of_nat (epoch_signals is)))"
proof -
  have e: "epoch s' = epoch s + of_nat (epoch_signals is)"
    using assms by (rule run_loop_epoch)
  have p: "map_option Epoch (published s') = Some (epoch s')"
    if "is \<noteq> []" and f: "in_time_servers (last is) \<noteq> NotFoundError"
  proof -
    from that(1) obtain xs i where x: "is = xs @ [i]"
      by (cases "is" rule: rev_cases) auto
    with assms obtain s1 a1 a2 where c: "cycle m s1 i = Continue s' a2"
      by (auto elim: run_loop_snoc)
    from c show ?thesis
    proof (cases rule: cycle_Continue_cases)
      case skip
      with f x show ?thesis by simp
    next
      case (full ts)
      from reconcile_Continue_facts(4) [OF full(4)] show ?thesis by simp
    qed
  qed
  from e p show ?thesis
    by (auto simp: init_state_def sint_add_of_nat)
qed

theorem epoch_counts_signals_witness:
  "run_loop ModeMetal started_state epoch_run = Continue epoch_run_state epoch_run_calls \<and>
   epoch_signals epoch_run = 2 \<and>
   epoch (init_state None) = 0 \<and>
   epoch started_state = 0 \<and>
   epoch epoch_run_state = 2 \<and>
   sint (epoch started_state) + int (epoch_signals epoch_run) < 2 ^ 63 \<and>
   sint (epoch epoch_run_state) = 2 \<and>
   epoch_run \<noteq> [] \<and> in_time_servers (last epoch_run) \<noteq> NotFoundError \<and>
   map_option Epoch (published epoch_run_state) = Some 2"
proof -
  have h1: "run_loop ModeMetal started_state epoch_run =
      Continue epoch_run_state epoch_run_calls"
    by (rule run_epoch_example)
  have e: "epoch_signals epoch_run = 2" "epoch started_state = 0" "epoch_run \<noteq> []"
    "in_time_servers (last epoch_run) \<noteq> NotFoundError"
    by (simp_all add: epoch_signals_def epoch_run_def epoch_input_def disabled_input_def
          example_input_def started_state_def)
  from epoch_counts_signals [OF h1, of None] h1 e
  show ?thesis by simp
qed

text \<open>
  Claim C6. When an arm other than \<^verbatim>\<open>ctx.Done()\<close> fired and the read of the time
  server list reports not-found, the iteration ends right after the \<^verbatim>\<open>select\<close>: the
  loop goes on (no error is returned), it has made no call at all (so no status write and
  no syncer started or stopped), the published status, the syncer and the wait group are
  as before, and the rest of the run is that of the loop started from the state the
  \<^verbatim>\<open>select\<close> left, so the next iteration is processed as usual.
\<close>

theorem not_found_skips_cycle:
  assumes "in_event i \<noteq> CtxDone" and "in_time_servers i = NotFoundError"
  shows "cycle m s i = Continue (select_case s (in_event i)) [] \<and>
         published (select_case s (in_event i)) = published s \<and>
         syncer (select_case s (in_event i)) = syncer s \<and>
         syncWg (select_case s (in_event i)) = syncWg s \<and>
         run_loop m s (i # rest) = run_loop m (select_case s (in_event i)) rest"
  using assms by (simp add: cycle_NotFound select_case_kept after_Nil)

theorem not_found_skips_cycle_witness:
  "in_event not_found_input \<noteq> CtxDone \<and>
   in_time_servers not_found_input = NotFoundError \<and>
   cycle ModeMetal (init_state None) not_found_input = Continue (init_state None) [] \<and>
   run_loop ModeMetal (init_state None) [not_found_input, example_input] =
   run_loop ModeMetal (init_state None) [example_input]"
proof -
  have h1: "in_event not_found_input \<noteq> CtxDone"
    and h2: "in_time_servers not_found_input = NotFoundError"
    and e: "select_case (init_state None) (in_event not_found_input) = init_state None"
    by (simp_all add: not_found_input_def example_input_def)
  from not_found_skips_cycle [OF h1 h2, of ModeMetal "init_state None" "[example_input]"]
  show ?thesis unfolding e using h1 h2 by blast
qed

text \<open>
  Claim C7. In a running loop, an iteration in which the store reports an error other
  than not-found on a read, or an error on the status write, makes \<^verbatim>\<open>Run\<close>
  return that error; nothing after it is processed, the iteration has made no status
  write, and the published status is the one of the last write that went through.
\<close>

theorem store_errors_are_fatal:
  assumes "Run m st is = Continue s a0" and "in_event i \<noteq> CtxDone" and "fatal i = Some e"
  shows "\<exists>s' acts.
           cycle m s i = Return (Some e) s' acts \<and>
           run_loop m s (i # rest) = Return (Some e) s' acts \<and>
           filter is_status_write acts = [] \<and>
           published s' = published s"
proof -
  have inv: "loop_inv s" using assms(1) by (rule Run_inv)
  then have i1: "loop_inv (select_case s (in_event i))" by (rule loop_inv_select)
  have "\<exists>s' acts.
           cycle m s i = Return (Some e) s' acts \<and>
           filter is_status_write acts = [] \<and>
           published s' = published s"
  proof (cases "in_time_servers i")
    case (Found ts)
    show ?thesis
    proof (cases "in_config i = OtherError")
      case True
      with Found assms(2,3) i1 show ?thesis
        by (simp add: fatal_def cycle_config_error return_with_loop_inv
              teardown_calls_no_write torn_down_kept select_case_kept)
    next
      case False
      with Found assms(3) have f: "in_modify_fails i" and e: "e = ErrUpdatingObjects"
        by (auto simp: fatal_def split: if_splits)
      obtain s5 a where "loop_inv s5"
        and "published s5 = published (select_case s (in_event i))"
        and "filter is_status_write a = []"
        and "reconcile m (select_case s (in_event i)) ts (cfg_of (in_config i))
               (in_since_boot i) (in_timer_expired i) True =
             return_with (Some ErrUpdatingObjects) s5 a"
        using reconcile_fails [OF i1] by metis
      with Found False assms(2) f e show ?thesis
        by (simp add: cycle_reconcile return_with_loop_inv teardown_calls_no_write
              torn_down_kept select_case_kept)
    qed
  next
    case NotFoundError
    with assms(3) show ?thesis by (simp add: fatal_def)
  next
    case OtherError
    with assms(2,3) i1 show ?thesis
      by (simp add: fatal_def cycle_servers_error return_with_loop_inv
            teardown_calls_no_write torn_down_kept select_case_kept)
  qed
  then show ?thesis by auto
qed

theorem store_errors_are_fatal_witness:
  "Run ModeMetal None [example_input] = Continue started_state started_calls \<and>
   in_event servers_error_input \<noteq> CtxDone \<and>
   fatal servers_error_input = Some ErrGettingTimeServerStatus \<and>
   fatal config_error_input = Some ErrGettingConfig \<and>
   fatal modify_error_input = Some ErrUpdatingObjects \<and>
   (\<exists>s' acts.
      cycle ModeMetal started_state servers_error_input =
        Return (Some ErrGettingTimeServerStatus) s' acts \<and>
      published s' = published started_state) \<and>
   (\<exists>s' acts.
      cycle ModeMetal started_state config_error_input =
        Return (Some ErrGettingConfig) s' acts \<and>
      published s' = published started_state) \<and>
   (\<exists>s' acts.
      cycle ModeMetal started_state modify_error_input =
        Return (Some ErrUpdatingObjects) s' acts \<and>
      run_loop ModeMetal started_state [modify_error_input, example_input] =
        Return (Some ErrUpdatingObjects) s' acts \<and>
      filter is_status_write acts = [] \<and>
      published s' = published started_state)"
proof -
  have h1: "Run ModeMetal None [example_input] = Continue started_state started_calls"
    by (rule Run_example)
  have h2: "in_event servers_error_input \<noteq> CtxDone" "in_event config_error_input \<noteq> CtxDone"
    "in_event modify_error_input \<noteq> CtxDone"
    by (simp_all add: servers_error_input_def config_error_input_def modify_error_input_def
          example_input_def)
  have h3: "fatal servers_error_input = Some ErrGettingTimeServerStatus"
    "fatal config_error_input = Some ErrGettingConfig"
    "fatal modify_error_input = Some ErrUpdatingObjects"
    by (simp_all add: fatal_def servers_error_input_def config_error_input_def
          modify_error_input_def example_input_def)
  from store_errors_are_fatal [OF h1 h2(1) h3(1), of "[]"]
    store_errors_are_fatal [OF h1 h2(2) h3(2), of "[]"]
    store_errors_are_fatal [OF h1 h2(3) h3(3), of "[example_input]"]
  show ?thesis using h1 h2 h3 by blast
qed

text \<open>
  Claim C8. The disabled decision is true exactly when the controller runs in container
  mode or a configuration is there and disables time sync (so it is false without a
  configuration outside container mode); and an iteration that takes the decision to be
  true and reaches the status write publishes synced and disabled both true, in its one
  status write, whatever the syncer was doing.
\<close>

theorem disabled_reports_synced:
  "sync_disabled m cfg = (m = ModeContainer \<or> (\<exists>c. cfg = Some c \<and> Disabled c)) \<and>
   (cycle m s i = Continue s' acts \<and> in_time_servers i = Found ts \<and>
    sync_disabled m (cfg_of (in_config i)) \<longrightarrow>
      published s' = Some \<lparr>Epoch = epoch s', Synced = True, SyncDisabled = True\<rparr> \<and>
      filter is_status_write acts =
        [StatusModify \<lparr>Epoch = epoch s', Synced = True, SyncDisabled = True\<rparr>])"
proof (intro conjI impI)
  show "sync_disabled m cfg = (m = ModeContainer \<or> (\<exists>c. cfg = Some c \<and> Disabled c))"
    by (cases cfg) (simp_all add: sync_disabled_def)
next
  assume a: "cycle m s i = Continue s' acts \<and> in_time_servers i = Found ts \<and>
    sync_disabled m (cfg_of (in_config i))"
  then have c: "cycle m s i = Continue s' acts" and t: "in_time_servers i = Found ts"
    and d: "sync_disabled m (cfg_of (in_config i))" by simp_all
  note f = reconcile_Continue_facts [OF cycle_ContinueD(3) [OF c t]]
  from f(3) d have "timeSynced s'" by simp
  with f(4,5) d
  show "published s' = Some \<lparr>Epoch = epoch s', Synced = True, SyncDisabled = True\<rparr>"
    and "filter is_status_write acts =
        [StatusModify \<lparr>Epoch = epoch s', Synced = True, SyncDisabled = True\<rparr>]"
    by simp_all
qed

theorem disabled_reports_synced_witness:
  "sync_disabled ModeMetal (Some \<lparr>Disabled = True, BootTimeout = 10\<rparr>) \<and>
   \<not> sync_disabled ModeMetal None \<and>
   cycle ModeMetal (init_state None) disabled_input =
     Continue disabled_state
       [NewTimer 0 9, StatusModify \<lparr>Epoch = 0, Synced = True, SyncDisabled = True\<rparr>] \<and>
   in_time_servers disabled_input = Found [''pool.ntp.org''] \<and>
   sync_disabled ModeMetal (cfg_of (in_config disabled_input)) \<and>
   published disabled_state = Some \<lparr>Epoch = 0, Synced = True, SyncDisabled = True\<rparr>"
proof -
  have h1: "cycle ModeMetal (init_state None) disabled_input =
     Continue disabled_state
       [NewTimer 0 9, StatusModify \<lparr>Epoch = 0, Synced = True, SyncDisabled = True\<rparr>]"
    by (rule cycle_disabled)
  have h2: "in_time_servers disabled_input = Found [''pool.ntp.org'']"
    and h3: "sync_disabled ModeMetal (cfg_of (in_config disabled_input))"
    by (simp_all add: disabled_input_def example_input_def sync_disabled_def cfg_of_def)
  have e: "epoch disabled_state = 0" by (simp add: disabled_state_def)
  have g: "sync_disabled ModeMetal (Some \<lparr>Disabled = True, BootTimeout = 10\<rparr>)"
    "\<not> sync_disabled ModeMetal None"
    using disabled_reports_synced [of ModeMetal "Some \<lparr>Disabled = True, BootTimeout = 10\<rparr>"]
      disabled_reports_synced [of ModeMetal None]
    by simp_all
  from disabled_reports_synced [of ModeMetal None "init_state None" disabled_input
      disabled_state "[NewTimer 0 9, StatusModify \<lparr>Epoch = 0, Synced = True, SyncDisabled = True\<rparr>]"
      "[''pool.ntp.org'']"] h1 h2 h3
  have "published disabled_state = Some \<lparr>Epoch = 0, Synced = True, SyncDisabled = True\<rparr>"
    unfolding e by blast
  with g h1 h2 h3 show ?thesis by blast
qed



text \<open>
  Claim C10, as the code has it. In a running loop, let an enabled arm of the
  \<^verbatim>\<open>select\<close> be taken in an iteration that is then skipped, let any number of skipped
  iterations follow, and then an iteration \<open>j\<close> that reaches the status write. The
  skipped iteration leaves exactly the state the \<^verbatim>\<open>select\<close> left and makes no call,
  and \<open>j\<close> runs from the state all the skipped \<^verbatim>\<open>select\<close>s have built up. The one
  status write of the run is the one of \<open>j\<close>; its epoch counts every epoch-change
  signal consumed since. When the first event was a synced signal or a timer firing, the
  status reports synced unless \<open>j\<close> starts a syncer with sync enabled (which resets
  the flag); and it does report synced when the event was a synced signal, or a timer
  firing that found the flag unset, for then a syncer is held and \<open>j\<close> starts none.
\<close>

theorem wait_updates_survive_skips:
  assumes "Run m st is = Continue s a0"
    and "enabled s (in_event i)"
    and "skipped i" and "list_all skipped skips"
    and "run_loop m s (i # skips @ [j]) = Continue s' acts"
    and "in_time_servers j \<noteq> NotFoundError"
  shows "cycle m s i = Continue (select_case s (in_event i)) [] \<and>
         run_loop m s (i # skips @ [j]) =
           run_loop m (foldl select_case (select_case s (in_event i)) (map in_event skips)) [j] \<and>
         (\<exists>p. published s' = Some p \<and>
              filter is_status_write acts = [StatusModify p] \<and>
              Epoch p = epoch s + of_nat (epoch_signals (i # skips @ [j])) \<and>
              (in_event i = SyncedSignal \<or> in_event i = TimeoutFired \<longrightarrow>
                 Synced p = (SyncDisabled p \<or> filter is_syncer_start acts = [])) \<and>
              (in_event i = SyncedSignal \<or> in_event i = TimeoutFired \<and> \<not> timeSynced s \<longrightarrow>
                 Synced p))"
proof -
  define sk where "sk = foldl select_case (select_case s (in_event i)) (map in_event skips)"
  have inv: "loop_inv s" using assms(1) by (rule Run_inv)
  have tns: "timer_needs_syncer s" using assms(1) by (rule Run_timer_needs_syncer)
  have c: "cycle m s i = Continue (select_case s (in_event i)) []"
    using assms(3) by (simp add: skipped_def cycle_NotFound)
  have sk: "run_loop m s (i # skips) = Continue sk []"
    using run_loop_skipped [of "i # skips" m s] assms(3,4) by (simp add: sk_def)
  have app: "run_loop m s (i # skips @ [j]) = run_loop m sk [j]"
    using run_loop_append [of m s "i # skips" "[j]"] sk by (simp add: after_Nil)
  with assms(5) have cj: "cycle m sk j = Continue s' acts"
    by (cases "cycle m sk j") (auto simp: after_def)
  have e: "epoch s' = epoch s + of_nat (epoch_signals (i # skips @ [j]))"
    using assms(5) by (rule run_loop_epoch)
  have sy: "syncer sk = syncer s"
    by (simp add: sk_def foldl_select_case_kept select_case_kept)
  have held: "syncer s \<noteq> None"
    if "in_event i = SyncedSignal \<or> in_event i = TimeoutFired \<and> \<not> timeSynced s"
    using that assms(2) inv tns
    by (auto simp: loop_inv_def timer_needs_syncer_def)
  from cj show ?thesis
  proof (cases rule: cycle_Continue_cases)
    case skip
    with assms(6) show ?thesis by simp
  next
    case (full ts)
    note f = reconcile_Continue_facts [OF full(4)]
    let ?p = "\<lparr>Epoch = epoch s', Synced = timeSynced s',
                SyncDisabled = sync_disabled m (cfg_of (in_config j))\<rparr>"
    have t: "timeSynced s' =
        (sync_disabled m (cfg_of (in_config j)) \<or> syncer s \<noteq> None)"
      if "in_event i = SyncedSignal \<or> in_event i = TimeoutFired"
    proof -
      from that have "timeSynced (select_case s (in_event i))"
        by (auto simp: select_case_timeSynced)
      then have "timeSynced sk" by (simp add: sk_def foldl_select_case_kept)
      with f(3) sy show ?thesis by (simp add: select_case_timeSynced select_case_kept)
    qed
    have st: "(filter is_syncer_start acts = []) =
        (sync_disabled m (cfg_of (in_config j)) \<or> syncer s \<noteq> None)"
      using f(7) sy by (simp add: select_case_kept)
    have "published s' = Some ?p" "filter is_status_write acts = [StatusModify ?p]"
      "Epoch ?p = epoch s + of_nat (epoch_signals (i # skips @ [j]))"
      "in_event i = SyncedSignal \<or> in_event i = TimeoutFired \<longrightarrow>
         Synced ?p = (SyncDisabled ?p \<or> filter is_syncer_start acts = [])"
      "in_event i = SyncedSignal \<or> in_event i = TimeoutFired \<and> \<not> timeSynced s \<longrightarrow>
         Synced ?p"
      using f(4,5) e t st held by auto
    with c app show ?thesis unfolding sk_def by blast
  qed
qed

theorem wait_updates_survive_skips_witness:
  "Run ModeMetal None [example_input] = Continue started_state started_calls \<and>
   in_event synced_skip_input = SyncedSignal \<and>
   enabled started_state (in_event synced_skip_input) \<and>
   skipped synced_skip_input \<and> list_all skipped [epoch_skip_input] \<and>
   run_loop ModeMetal started_state [synced_skip_input, epoch_skip_input, example_input] =
     Continue caught_up_state caught_up_calls \<and>
   in_time_servers example_input \<noteq> NotFoundError \<and>
   epoch started_state = 0 \<and>
   epoch_signals [synced_skip_input, epoch_skip_input, example_input] = 1 \<and>
   (\<exists>p. published caught_up_state = Some p \<and>
        filter is_status_write caught_up_calls = [StatusModify p] \<and>
        Epoch p = 1 \<and> Synced p)"
proof -
  have h1: "Run ModeMetal None [example_input] = Continue started_state started_calls"
    by (rule Run_example)
  have h2: "enabled started_state (in_event synced_skip_input)"
    and h3: "skipped synced_skip_input" and h4: "list_all skipped [epoch_skip_input]"
    and h6: "in_time_servers example_input \<noteq> NotFoundError"
    and e: "in_event synced_skip_input = SyncedSignal" "epoch started_state = 0"
      "epoch_signals [synced_skip_input, epoch_skip_input, example_input] = 1"
    by (simp_all add: synced_skip_input_def epoch_skip_input_def not_found_input_def
          example_input_def started_state_def skipped_def epoch_signals_def)
  have h5: "run_loop ModeMetal started_state
      (synced_skip_input # [epoch_skip_input] @ [example_input]) =
     Continue caught_up_state caught_up_calls"
    using run_caught_up by simp
  from wait_updates_survive_skips [OF h1 h2 h3 h4 h5 h6] e
  have "\<exists>p. published caught_up_state = Some p \<and>
        filter is_status_write caught_up_calls = [StatusModify p] \<and>
        Epoch p = 1 \<and> Synced p"
    by auto
  with h1 h2 h3 h4 h6 e run_caught_up show ?thesis by blast
qed

text \<open>
  Claim C10 as stated fails for the timer firing. The first iteration, 1 after boot, reads
  a configuration that disables sync with a boot timeout of 10: it arms timer 0 for 9 and
  publishes synced. The timer fires; the iteration that consumes it sets the flag (which
  was set already) and clears the timer variable, and is skipped because the time server
  list is gone. The next iteration reads a configuration that enables sync: it starts a
  syncer, which resets the flag, and the next successful status write reports that the
  time is not synced.
\<close>

theorem timer_fire_not_published_counterexample:
  "Run ModeMetal None [disabled_input] =
     Continue disabled_state
       [NewTimer 0 9, StatusModify \<lparr>Epoch = 0, Synced = True, SyncDisabled = True\<rparr>] \<and>
   in_event fired_skip_input = TimeoutFired \<and>
   enabled disabled_state (in_event fired_skip_input) \<and>
   in_time_servers fired_skip_input = NotFoundError \<and>
   cycle ModeMetal disabled_state fired_skip_input = Continue fired_state [] \<and>
   fired_state = select_case disabled_state TimeoutFired \<and>
   timeSynced fired_state \<and>
   cycle ModeMetal fired_state reenabled_input = Continue restarted_state restarted_calls \<and>
   filter is_status_write restarted_calls =
     [StatusModify \<lparr>Epoch = 0, Synced = False, SyncDisabled = False\<rparr>] \<and>
   published restarted_state = Some \<lparr>Epoch = 0, Synced = False, SyncDisabled = False\<rparr> \<and>
   Run ModeMetal None [disabled_input, fired_skip_input, reenabled_input] =
     Continue restarted_state
       ([NewTimer 0 9, StatusModify \<lparr>Epoch = 0, Synced = True, SyncDisabled = True\<rparr>] @
        restarted_calls)"
  by (simp add: Run_def cycle_disabled cycle_fired cycle_restarted after_def)
     (simp add: fired_skip_input_def not_found_input_def example_input_def fired_state_def
        disabled_state_def restarted_state_def restarted_calls_def)

end
